theory Spec2Isabelle
  imports Main "HOL-Library.AList" "HOL-Library.Multiset"
begin

section \<open>The netlist model read by the connectivity graph example\<close>

text \<open>
  The example \<^verbatim>\<open>examples/special/plot_connectivity_graph.py\<close> reads a netlist through the
  attributes of its elements and never writes to it. Elements are identified by numbers, one
  numbering per class; an outer pin is identified by its instance and its inner pin. The
  attributes the example reads are the fields of the record \<open>netlist\<close>, named
  \<open>class_attribute\<close>.
\<close>

datatype direction = UNDEFINED | INOUT | IN | OUT

datatype pin = InnerPin nat | OuterPin nat nat

datatype element = Instance nat | Port nat | Cable nat | Wire nat | Pin pin

record netlist =
  top_instance :: nat
  instance_reference :: "nat \<Rightarrow> nat"
  instance_pins :: "nat \<Rightarrow> nat list"
  definition_ports :: "nat \<Rightarrow> nat list"
  definition_cables :: "nat \<Rightarrow> nat list"
  definition_children :: "nat \<Rightarrow> nat list"
  definition_is_leaf :: "nat \<Rightarrow> bool"
  port_direction :: "nat \<Rightarrow> direction"
  port_pins :: "nat \<Rightarrow> nat list"
  cable_wires :: "nat \<Rightarrow> nat list"
  wire_cable :: "nat \<Rightarrow> nat"
  wire_pins :: "nat \<Rightarrow> pin list"
  innerpin_port :: "nat \<Rightarrow> nat"
  innerpin_wire :: "nat \<Rightarrow> nat option"
  outerpin_wire :: "nat \<Rightarrow> nat \<Rightarrow> nat option"
  element_data :: "element \<Rightarrow> (string \<rightharpoonup> string)"

text \<open>
  \<open>instance_pins nl i\<close> lists the inner pins for which instance \<open>i\<close> holds an outer pin, in
  the order of the instance's pin dictionary; \<open>outerpin_wire nl i p\<close> is the wire of the outer
  pin of instance \<open>i\<close> for inner pin \<open>p\<close>. \<open>definition_is_leaf\<close> stands for the method
  \<^verbatim>\<open>Definition.is_leaf\<close>, whose code is not part of the example.
\<close>

section \<open>Hierarchy nodes\<close>

text \<open>
  \<^verbatim>\<open>class Node\<close> has no \<^verbatim>\<open>__eq__\<close> and no \<^verbatim>\<open>__hash__\<close>: a node is its object
  identity. The model keeps all node objects in a store, a list indexed by address; creating
  a node appends to the store. The dictionary \<^verbatim>\<open>children\<close> is an association list in
  insertion order.
\<close>

record Node =
  parent :: "nat option"
  item :: element
  children :: "(element \<times> nat) list"

type_synonym heap = "Node list"

datatype error = KeyError | AttributeError | TypeError | ValueError

definition Node_init :: "nat option \<Rightarrow> element \<Rightarrow> Node" where
  "Node_init p x = \<lparr>parent = p, item = x, children = []\<rparr>"

definition ebind :: "error + 'a \<Rightarrow> ('a \<Rightarrow> error + 'b) \<Rightarrow> error + 'b" where
  "ebind m f = (case m of Inl e \<Rightarrow> Inl e | Inr x \<Rightarrow> f x)"

text \<open>\<^verbatim>\<open>node.children[x]\<close>: a missing key raises \<^verbatim>\<open>KeyError\<close>.\<close>

definition child :: "heap \<Rightarrow> nat \<Rightarrow> element \<Rightarrow> error + nat" where
  "child h node x = (case map_of (children (h ! node)) x of None \<Rightarrow> Inl KeyError | Some c \<Rightarrow> Inr c)"

text \<open>\<^verbatim>\<open>node.children[x]\<close> where \<^verbatim>\<open>node\<close> may be \<^verbatim>\<open>None\<close>.\<close>

definition child_opt :: "heap \<Rightarrow> nat option \<Rightarrow> element \<Rightarrow> error + nat" where
  "child_opt h node x = (case node of None \<Rightarrow> Inl AttributeError | Some n \<Rightarrow> child h n x)"

text \<open>\<^verbatim>\<open>parent.children[wire.cable].children[wire]\<close>\<close>

definition wire_node_of :: "netlist \<Rightarrow> heap \<Rightarrow> nat option \<Rightarrow> nat \<Rightarrow> error + nat" where
  "wire_node_of nl h instance_node wire =
     ebind (child_opt h instance_node (Cable (wire_cable nl wire)))
       (\<lambda>cable_node. child h cable_node (Wire wire))"

section \<open>generate_nodes\<close>

text \<open>
  One pass of the three statements \<^verbatim>\<open>new_node = Node(node, x); node.children[x] = new_node;
  search_stack.append(new_node)\<close>. The search stack is kept with its top at the head of the
  list.
\<close>

definition new_child :: "nat \<Rightarrow> heap \<times> nat list \<Rightarrow> element \<Rightarrow> heap \<times> nat list" where
  "new_child node s x =
     (let h = fst s; new_node = length h; h1 = h @ [Node_init (Some node) x]
      in (h1[node := (h1 ! node)\<lparr>children := AList.update x new_node (children (h1 ! node))\<rparr>],
          new_node # snd s))"

fun generate_loop :: "nat \<Rightarrow> netlist \<Rightarrow> heap \<Rightarrow> nat list \<Rightarrow> heap option" where
  "generate_loop fuel nl h [] = Some h"
| "generate_loop 0 nl h (node # search_stack) = None"
| "generate_loop (Suc fuel) nl h (node # search_stack) =
     (case item (h ! node) of
        Instance i \<Rightarrow>
          (let ref = instance_reference nl i;
               s1 = foldl (new_child node) (h, search_stack) (map Port (definition_ports nl ref));
               s2 = foldl (new_child node) s1 (map Cable (definition_cables nl ref));
               s3 = foldl (new_child node) s2 (map Instance (definition_children nl ref))
           in generate_loop fuel nl (fst s3) (snd s3))
      | Port p \<Rightarrow>
          (let s1 = foldl (new_child node) (h, search_stack)
                      (map (\<lambda>q. Pin (InnerPin q)) (port_pins nl p))
           in generate_loop fuel nl (fst s1) (snd s1))
      | Cable c \<Rightarrow>
          (let s1 = foldl (new_child node) (h, search_stack) (map Wire (cable_wires nl c))
           in generate_loop fuel nl (fst s1) (snd s1))
      | _ \<Rightarrow> generate_loop fuel nl h search_stack)"

text \<open>
  \<open>generate_nodes fuel nl h\<close> runs in the store \<open>h\<close> and returns the new store with the
  address of the top node; \<open>None\<close> when the loop has not ended after \<open>fuel\<close> iterations.
\<close>

definition generate_nodes :: "nat \<Rightarrow> netlist \<Rightarrow> heap \<Rightarrow> (heap \<times> nat) option" where
  "generate_nodes fuel nl h =
     (let top_node = length h
      in map_option (\<lambda>h'. (h', top_node))
           (generate_loop fuel nl (h @ [Node_init None (Instance (top_instance nl))]) [top_node]))"

section \<open>get_leaf_instance_nodes and get_top_port_nodes\<close>

fun leaf_loop :: "nat \<Rightarrow> netlist \<Rightarrow> heap \<Rightarrow> nat list \<Rightarrow> nat list \<Rightarrow> nat list option" where
  "leaf_loop fuel nl h [] leaf_instance_nodes = Some leaf_instance_nodes"
| "leaf_loop 0 nl h (current_node # search_stack) leaf_instance_nodes = None"
| "leaf_loop (Suc fuel) nl h (current_node # search_stack) leaf_instance_nodes =
     (case item (h ! current_node) of
        Instance i \<Rightarrow>
          if definition_is_leaf nl (instance_reference nl i)
          then leaf_loop fuel nl h search_stack (leaf_instance_nodes @ [current_node])
          else leaf_loop fuel nl h
                 (rev (map snd (children (h ! current_node))) @ search_stack) leaf_instance_nodes
      | _ \<Rightarrow> leaf_loop fuel nl h search_stack leaf_instance_nodes)"

definition get_leaf_instance_nodes :: "nat \<Rightarrow> netlist \<Rightarrow> heap \<Rightarrow> nat \<Rightarrow> nat list option" where
  "get_leaf_instance_nodes fuel nl h top_instance_node = leaf_loop fuel nl h [top_instance_node] []"

fun is_Port :: "element \<Rightarrow> bool" where
  "is_Port (Port p) = True"
| "is_Port _ = False"

definition get_top_port_nodes :: "heap \<Rightarrow> nat \<Rightarrow> nat list" where
  "get_top_port_nodes h top_instance_node =
     map snd (filter (\<lambda>kv. is_Port (fst kv)) (children (h ! top_instance_node)))"

section \<open>get_downstream_nodes\<close>

record search =
  found_pin_nodes :: "nat set"
  search_stack :: "nat list"
  downstream_nodes :: "nat list"

definition push_wire :: "netlist \<Rightarrow> heap \<Rightarrow> nat option \<Rightarrow> nat option \<Rightarrow> search \<Rightarrow> error + search" where
  "push_wire nl h instance_node wire s =
     (case wire of
        None \<Rightarrow> Inr s
      | Some w \<Rightarrow> ebind (wire_node_of nl h instance_node w)
                    (\<lambda>wire_node. Inr (s\<lparr>search_stack := wire_node # search_stack s\<rparr>)))"

text \<open>The body of \<^verbatim>\<open>for pin in instance.pins\<close> (lines 150 to 161).\<close>

definition seed_instance_pin :: "netlist \<Rightarrow> heap \<Rightarrow> nat \<Rightarrow> nat \<Rightarrow> search \<Rightarrow> nat \<Rightarrow> error + search" where
  "seed_instance_pin nl h node i s inner_pin =
     (case outerpin_wire nl i inner_pin of
        None \<Rightarrow> Inr s
      | Some wire \<Rightarrow>
          if port_direction nl (innerpin_port nl inner_pin) \<in> {OUT, INOUT} then
            ebind (child h node (Port (innerpin_port nl inner_pin))) (\<lambda>port_node.
            ebind (child h port_node (Pin (InnerPin inner_pin))) (\<lambda>pin_node.
              push_wire nl h (parent (h ! node)) (Some wire)
                (s\<lparr>found_pin_nodes := insert pin_node (found_pin_nodes s)\<rparr>)))
          else Inr s)"

text \<open>The body of \<^verbatim>\<open>for pin in port.pins\<close> (lines 168 to 177).\<close>

definition seed_port_pin :: "netlist \<Rightarrow> heap \<Rightarrow> nat \<Rightarrow> search \<Rightarrow> nat \<Rightarrow> error + search" where
  "seed_port_pin nl h node s pin =
     (case innerpin_wire nl pin of
        None \<Rightarrow> Inr s
      | Some wire \<Rightarrow>
          ebind (child h node (Pin (InnerPin pin))) (\<lambda>pin_node.
            push_wire nl h (parent (h ! node)) (Some wire)
              (s\<lparr>found_pin_nodes := insert pin_node (found_pin_nodes s)\<rparr>)))"

text \<open>A \<^verbatim>\<open>for\<close> loop whose body may raise.\<close>

fun for_each :: "('s \<Rightarrow> 'a \<Rightarrow> error + 's) \<Rightarrow> 'a list \<Rightarrow> 's \<Rightarrow> error + 's" where
  "for_each body [] s = Inr s"
| "for_each body (x # xs) s = (case body s x of Inl e \<Rightarrow> Inl e | Inr s' \<Rightarrow> for_each body xs s')"

definition empty_search :: search where
  "empty_search = \<lparr>found_pin_nodes = {}, search_stack = [], downstream_nodes = []\<rparr>"

text \<open>Lines 142 to 177: the starting wires.\<close>

definition seed_step :: "netlist \<Rightarrow> heap \<Rightarrow> nat \<Rightarrow> bool \<Rightarrow> error + search" where
  "seed_step nl h node include_top_ports =
     (case item (h ! node) of
        Instance i \<Rightarrow> for_each (seed_instance_pin nl h node i) (instance_pins nl i) empty_search
      | Port p \<Rightarrow>
          if include_top_ports then
            (if port_direction nl p \<in> {IN, INOUT}
             then for_each (seed_port_pin nl h node) (port_pins nl p) empty_search
             else Inr empty_search)
          else Inr empty_search
      | _ \<Rightarrow> Inr empty_search)"

text \<open>
  Lines 193 to 204: an inner pin whose pin node had not been found. With a parent above the
  current instance node the search goes on from the wire of the outer pin; at the top the
  port node is a result when top ports are included.
\<close>

definition leave_instance ::
  "netlist \<Rightarrow> heap \<Rightarrow> bool \<Rightarrow> nat \<Rightarrow> nat \<Rightarrow> nat \<Rightarrow> nat \<Rightarrow> search \<Rightarrow> error + search" where
  "leave_instance nl h include_top_ports current_instance_node q port_node pin_node s =
     (let s1 = s\<lparr>found_pin_nodes := insert pin_node (found_pin_nodes s)\<rparr>
      in case parent (h ! current_instance_node) of
           Some current_instance_parent_node \<Rightarrow>
             (case item (h ! current_instance_node) of
                Instance i \<Rightarrow>
                  if q \<in> set (instance_pins nl i)
                  then push_wire nl h (Some current_instance_parent_node) (outerpin_wire nl i q) s1
                  else Inl KeyError
              | _ \<Rightarrow> Inl AttributeError)
         | None \<Rightarrow>
             if include_top_ports
             then Inr (s1\<lparr>downstream_nodes := downstream_nodes s1 @ [port_node]\<rparr>)
             else Inr s1)"

text \<open>Lines 189 to 204: the branch of an inner pin.\<close>

definition visit_inner_pin ::
  "netlist \<Rightarrow> heap \<Rightarrow> bool \<Rightarrow> nat \<Rightarrow> search \<Rightarrow> nat \<Rightarrow> error + search" where
  "visit_inner_pin nl h include_top_ports current_instance_node s q =
     ebind (child h current_instance_node (Port (innerpin_port nl q))) (\<lambda>port_node.
     ebind (child h port_node (Pin (InnerPin q))) (\<lambda>pin_node.
       if pin_node \<notin> found_pin_nodes s
       then leave_instance nl h include_top_ports current_instance_node q port_node pin_node s
       else Inr s))"

text \<open>Lines 211 to 222: an outer pin of an instance that is not a leaf.\<close>

definition enter_instance :: "netlist \<Rightarrow> heap \<Rightarrow> nat \<Rightarrow> nat \<Rightarrow> search \<Rightarrow> error + search" where
  "enter_instance nl h instance_node q s =
     ebind (child h instance_node (Port (innerpin_port nl q))) (\<lambda>port_node.
     ebind (child h port_node (Pin (InnerPin q))) (\<lambda>pin_node.
       push_wire nl h (Some instance_node) (innerpin_wire nl q)
         (s\<lparr>found_pin_nodes := insert pin_node (found_pin_nodes s)\<rparr>)))"

text \<open>Lines 206 to 222: the branch of an outer pin.\<close>

definition visit_outer_pin ::
  "netlist \<Rightarrow> heap \<Rightarrow> nat \<Rightarrow> search \<Rightarrow> nat \<Rightarrow> nat \<Rightarrow> error + search" where
  "visit_outer_pin nl h current_instance_node s i q =
     ebind (child h current_instance_node (Instance i)) (\<lambda>instance_node.
       if definition_is_leaf nl (instance_reference nl i)
       then Inr (s\<lparr>downstream_nodes := downstream_nodes s @ [instance_node]\<rparr>)
       else enter_instance nl h instance_node q s)"

text \<open>
  The body of \<^verbatim>\<open>for pin in current_wire.pins\<close> (lines 188 to 222). Both branches begin
  with \<^verbatim>\<open>current_instance_node.children[...]\<close>, which raises \<^verbatim>\<open>AttributeError\<close> when the
  cable node has no parent.
\<close>

definition visit_pin :: "netlist \<Rightarrow> heap \<Rightarrow> bool \<Rightarrow> nat option \<Rightarrow> search \<Rightarrow> pin \<Rightarrow> error + search" where
  "visit_pin nl h include_top_ports current_instance_node s pin =
     (case current_instance_node of
        None \<Rightarrow> Inl AttributeError
      | Some cin \<Rightarrow>
          (case pin of
             InnerPin q \<Rightarrow> visit_inner_pin nl h include_top_ports cin s q
           | OuterPin i q \<Rightarrow> visit_outer_pin nl h cin s i q))"

text \<open>One iteration of the \<^verbatim>\<open>while\<close> loop, after the pop (lines 183 to 222).\<close>

definition visit_wire :: "netlist \<Rightarrow> heap \<Rightarrow> bool \<Rightarrow> nat \<Rightarrow> search \<Rightarrow> error + search" where
  "visit_wire nl h include_top_ports current_wire_node s =
     (case parent (h ! current_wire_node) of
        None \<Rightarrow> Inl AttributeError
      | Some current_cable_node \<Rightarrow>
          (case item (h ! current_wire_node) of
             Wire w \<Rightarrow>
               for_each (visit_pin nl h include_top_ports (parent (h ! current_cable_node)))
                 (wire_pins nl w) s
           | _ \<Rightarrow> Inl AttributeError))"

fun search_loop :: "nat \<Rightarrow> netlist \<Rightarrow> heap \<Rightarrow> bool \<Rightarrow> search \<Rightarrow> (error + nat list) option" where
  "search_loop fuel nl h include_top_ports s =
     (case search_stack s of
        [] \<Rightarrow> Some (Inr (downstream_nodes s))
      | current_wire_node # rest \<Rightarrow>
          (case fuel of
             0 \<Rightarrow> None
           | Suc fuel' \<Rightarrow>
               (case visit_wire nl h include_top_ports current_wire_node (s\<lparr>search_stack := rest\<rparr>) of
                  Inl e \<Rightarrow> Some (Inl e)
                | Inr s' \<Rightarrow> search_loop fuel' nl h include_top_ports s')))"

text \<open>
  \<open>None\<close>: the loop has not ended after \<open>fuel\<close> iterations; \<open>Some (Inl e)\<close>: the call raised
  \<open>e\<close>; \<open>Some (Inr ds)\<close>: the call returned the list \<open>ds\<close>.
\<close>

definition get_downstream_nodes ::
  "nat \<Rightarrow> netlist \<Rightarrow> heap \<Rightarrow> nat \<Rightarrow> bool \<Rightarrow> (error + nat list) option" where
  "get_downstream_nodes fuel nl h node include_top_ports =
     (case seed_step nl h node include_top_ports of
        Inl e \<Rightarrow> Some (Inl e)
      | Inr s \<Rightarrow> search_loop fuel nl h include_top_ports s)"

section \<open>get_connectivity_graph\<close>

text \<open>
  The directed graph of the graph library: nodes and edges without multiplicity, in insertion
  order; adding an edge adds its end points when they are missing.
\<close>

record DiGraph =
  nodes :: "nat list"
  edges :: "(nat \<times> nat) list"

definition empty_graph :: DiGraph where
  "empty_graph = \<lparr>nodes = [], edges = []\<rparr>"

definition add_node :: "DiGraph \<Rightarrow> nat \<Rightarrow> DiGraph" where
  "add_node g n = (if n \<in> set (nodes g) then g else g\<lparr>nodes := nodes g @ [n]\<rparr>)"

definition add_nodes_from :: "DiGraph \<Rightarrow> nat list \<Rightarrow> DiGraph" where
  "add_nodes_from g ns = foldl add_node g ns"

definition add_edge :: "nat \<Rightarrow> DiGraph \<Rightarrow> nat \<Rightarrow> DiGraph" where
  "add_edge u g v =
     (let g1 = add_node (add_node g u) v
      in if (u, v) \<in> set (edges g1) then g1 else g1\<lparr>edges := edges g1 @ [(u, v)]\<rparr>)"

text \<open>Lines 73 to 76, over the snapshot \<^verbatim>\<open>list(connectivity_graph.nodes)\<close>.\<close>

fun edges_loop ::
  "nat \<Rightarrow> netlist \<Rightarrow> heap \<Rightarrow> bool \<Rightarrow> nat list \<Rightarrow> DiGraph \<Rightarrow> (error + DiGraph) option" where
  "edges_loop fuel nl h include_top_ports [] g = Some (Inr g)"
| "edges_loop fuel nl h include_top_ports (node # ns) g =
     (case get_downstream_nodes fuel nl h node include_top_ports of
        None \<Rightarrow> None
      | Some (Inl e) \<Rightarrow> Some (Inl e)
      | Some (Inr ds) \<Rightarrow> edges_loop fuel nl h include_top_ports ns (foldl (add_edge node) g ds))"

text \<open>
  The call runs in the store \<open>h\<close> and returns the store it leaves with what the call
  returned or raised.
\<close>

definition get_connectivity_graph ::
  "nat \<Rightarrow> netlist \<Rightarrow> heap \<Rightarrow> bool \<Rightarrow> (heap \<times> (error + DiGraph)) option" where
  "get_connectivity_graph fuel nl h include_top_ports =
     (case generate_nodes fuel nl h of
        None \<Rightarrow> None
      | Some (h', top_instance_node) \<Rightarrow>
          (case get_leaf_instance_nodes fuel nl h' top_instance_node of
             None \<Rightarrow> None
           | Some leaf_instance_nodes \<Rightarrow>
               (let g1 = add_nodes_from empty_graph leaf_instance_nodes;
                    g2 = (if include_top_ports
                          then add_nodes_from g1 (get_top_port_nodes h' top_instance_node)
                          else g1)
                in map_option (\<lambda>r. (h', r))
                     (edges_loop fuel nl h' include_top_ports (nodes g2) g2))))"

section \<open>Node.get_name and Node.get_hiearchical_name\<close>

text \<open>
  Instances, ports and cables carry a dictionary of attributes, which \<^verbatim>\<open>in\<close> and indexing
  read. A pin or a wire carries none and is not iterable: \<^verbatim>\<open>in\<close> raises \<^verbatim>\<open>TypeError\<close> on it.
  \<^verbatim>\<open>get_name\<close> falls off its end when neither key is present: it returns \<^verbatim>\<open>None\<close>, here
  the value \<open>None\<close> of \<open>string option\<close>.
\<close>

definition get_name :: "netlist \<Rightarrow> heap \<Rightarrow> nat \<Rightarrow> error + string option" where
  "get_name nl h node =
     (case item (h ! node) of
        Wire w \<Rightarrow> Inl TypeError
      | Pin q \<Rightarrow> Inl TypeError
      | _ \<Rightarrow>
          (let d = element_data nl (item (h ! node))
           in if d ''EDIF.original_identifier'' \<noteq> None then Inr (d ''EDIF.original_identifier'')
              else if d ''EDIF.identifier'' \<noteq> None then Inr (d ''EDIF.identifier'')
              else Inr None))"

text \<open>The loop \<^verbatim>\<open>while parent: parents.append(parent); parent = parent.parent\<close>.\<close>

fun parents_loop :: "nat \<Rightarrow> heap \<Rightarrow> nat option \<Rightarrow> nat list \<Rightarrow> nat list option" where
  "parents_loop fuel h None parents = Some parents"
| "parents_loop 0 h (Some p) parents = None"
| "parents_loop (Suc fuel) h (Some p) parents = parents_loop fuel h (parent (h ! p)) (parents @ [p])"

text \<open>\<^verbatim>\<open>sep.join(xs)\<close>\<close>

fun join :: "string \<Rightarrow> string list \<Rightarrow> string" where
  "join sep [] = []"
| "join sep [x] = x"
| "join sep (x # y # ys) = x @ sep @ join sep (y # ys)"

text \<open>The decimal digits of a number, as \<^verbatim>\<open>format\<close> writes an index.\<close>

definition digit_char :: "nat \<Rightarrow> char" where
  "digit_char d = char_of (48 + d)"

function str_nat :: "nat \<Rightarrow> string" where
  "str_nat n = (if n < 10 then [digit_char n] else str_nat (n div 10) @ [digit_char (n mod 10)])"
  by pat_completeness auto
termination
  by (relation "measure id") auto

text \<open>How \<^verbatim>\<open>format\<close> writes a name that may be \<^verbatim>\<open>None\<close>.\<close>

definition str_name :: "string option \<Rightarrow> string" where
  "str_name n = (case n of None \<Rightarrow> ''None'' | Some s \<Rightarrow> s)"

text \<open>\<^verbatim>\<open>xs.index(x)\<close>: the first position of \<open>x\<close>, \<^verbatim>\<open>ValueError\<close> when there is none.\<close>

fun index :: "nat list \<Rightarrow> nat \<Rightarrow> error + nat" where
  "index [] x = Inl ValueError"
| "index (y # ys) x = (if y = x then Inr 0 else ebind (index ys x) (\<lambda>k. Inr (Suc k)))"

definition format_index :: "string \<Rightarrow> error + nat \<Rightarrow> error + string option" where
  "format_index prefix k = ebind k (\<lambda>k. Inr (Some (prefix @ ''['' @ str_nat k @ '']'')))"

text \<open>
  The names that \<^verbatim>\<open>join\<close> receives: \<^verbatim>\<open>x.get_name() for x in reversed(parents)\<close>. A call of
  \<^verbatim>\<open>get_name\<close> that raises ends the call, and \<^verbatim>\<open>join\<close> raises \<^verbatim>\<open>TypeError\<close> on a name that
  is \<^verbatim>\<open>None\<close>; both are the same exception.
\<close>

fun names_of :: "netlist \<Rightarrow> heap \<Rightarrow> nat list \<Rightarrow> error + string list" where
  "names_of nl h [] = Inr []"
| "names_of nl h (p # ps) =
     ebind (get_name nl h p) (\<lambda>n.
       case n of
         None \<Rightarrow> Inl TypeError
       | Some name \<Rightarrow> ebind (names_of nl h ps) (\<lambda>names. Inr (name # names)))"

text \<open>
  \<open>None\<close>: the loop over the parents has not ended after \<open>fuel\<close> iterations. An outer pin
  has no attribute \<^verbatim>\<open>port\<close>.
\<close>

definition get_hiearchical_name :: "nat \<Rightarrow> netlist \<Rightarrow> heap \<Rightarrow> nat \<Rightarrow> (error + string option) option" where
  "get_hiearchical_name fuel nl h node =
     map_option (\<lambda>parents.
       ebind (names_of nl h (rev parents)) (\<lambda>names.
         let prefix = join ''/'' names
         in case item (h ! node) of
              Wire w \<Rightarrow> format_index prefix (index (cable_wires nl (wire_cable nl w)) w)
            | Pin (InnerPin q) \<Rightarrow> format_index prefix (index (port_pins nl (innerpin_port nl q)) q)
            | Pin (OuterPin i q) \<Rightarrow> Inl AttributeError
            | _ \<Rightarrow>
                if prefix \<noteq> []
                then ebind (get_name nl h node) (\<lambda>n. Inr (Some (prefix @ ''/'' @ str_name n)))
                else get_name nl h node))
       (parents_loop fuel h (parent (h ! node)) [])"

section \<open>The scenario of two leaf instances between two top ports\<close>

text \<open>
  Top instance 0 of definition 0 with ports 0 (\<open>P_in\<close>, input, pin 0) and 1 (\<open>P_out\<close>,
  output, pin 1), cables 0, 1, 2 of one wire each, and the child instances 1 (\<open>A\<close>) and
  2 (\<open>B\<close>) of the leaf definition 1 with ports 2 (input, pin 2) and 3 (output, pin 3).
  Wire 0 joins \<open>P_in\<close> and the input of \<open>A\<close>, wire 1 the output of \<open>A\<close> and the input of
  \<open>B\<close>, wire 2 the output of \<open>B\<close> and \<open>P_out\<close>. The cables of the two top ports carry the
  names of their ports, as the nets of a netlist file usually do.
\<close>

definition chain :: netlist where
  "chain = \<lparr>
     top_instance = 0,
     instance_reference = (\<lambda>i. if i = 0 then 0 else 1),
     instance_pins = (\<lambda>i. if i = 0 then [0, 1] else [2, 3]),
     definition_ports = (\<lambda>d. if d = 0 then [0, 1] else [2, 3]),
     definition_cables = (\<lambda>d. if d = 0 then [0, 1, 2] else []),
     definition_children = (\<lambda>d. if d = 0 then [1, 2] else []),
     definition_is_leaf = (\<lambda>d. d \<noteq> 0),
     port_direction = (\<lambda>p. if p = 0 \<or> p = 2 then IN else OUT),
     port_pins = (\<lambda>p. [p]),
     cable_wires = (\<lambda>c. [c]),
     wire_cable = (\<lambda>w. w),
     wire_pins = (\<lambda>w. if w = 0 then [InnerPin 0, OuterPin 1 2]
                       else if w = 1 then [OuterPin 1 3, OuterPin 2 2]
                       else [OuterPin 2 3, InnerPin 1]),
     innerpin_port = (\<lambda>q. q),
     innerpin_wire = (\<lambda>q. if q = 0 then Some 0 else if q = 1 then Some 2 else None),
     outerpin_wire = (\<lambda>i q. if i = 1 \<and> q = 2 then Some 0
                             else if i = 1 \<and> q = 3 then Some 1
                             else if i = 2 \<and> q = 2 then Some 1
                             else if i = 2 \<and> q = 3 then Some 2
                             else None),
     element_data = (\<lambda>x. case x of
         Instance i \<Rightarrow> [''EDIF.identifier'' \<mapsto> (if i = 0 then ''top'' else if i = 1 then ''A'' else ''B'')]
       | Port p \<Rightarrow> [''EDIF.identifier'' \<mapsto> (if p = 0 then ''P_in'' else if p = 1 then ''P_out''
                                             else if p = 2 then ''I'' else ''O'')]
       | Cable c \<Rightarrow> [''EDIF.identifier'' \<mapsto> (if c = 0 then ''P_in'' else if c = 1 then ''n1''
                                              else ''P_out'')]
       | _ \<Rightarrow> Map.empty)\<rparr>"

text \<open>The store that \<open>generate_nodes\<close> builds for the scenario from the empty store.\<close>

definition chain_heap :: heap where
  "chain_heap =
    [\<lparr>parent = None, item = Instance 0,
       children = [(Port 0, 1), (Port 1, 2), (Cable 0, 3), (Cable 1, 4), (Cable 2, 5),
                   (Instance 1, 6), (Instance 2, 7)]\<rparr>,
     \<lparr>parent = Some 0, item = Port 0, children = [(Pin (InnerPin 0), 20)]\<rparr>,
     \<lparr>parent = Some 0, item = Port 1, children = [(Pin (InnerPin 1), 19)]\<rparr>,
     \<lparr>parent = Some 0, item = Cable 0, children = [(Wire 0, 18)]\<rparr>,
     \<lparr>parent = Some 0, item = Cable 1, children = [(Wire 1, 17)]\<rparr>,
     \<lparr>parent = Some 0, item = Cable 2, children = [(Wire 2, 16)]\<rparr>,
     \<lparr>parent = Some 0, item = Instance 1, children = [(Port 2, 12), (Port 3, 13)]\<rparr>,
     \<lparr>parent = Some 0, item = Instance 2, children = [(Port 2, 8), (Port 3, 9)]\<rparr>,
     \<lparr>parent = Some 7, item = Port 2, children = [(Pin (InnerPin 2), 11)]\<rparr>,
     \<lparr>parent = Some 7, item = Port 3, children = [(Pin (InnerPin 3), 10)]\<rparr>,
     \<lparr>parent = Some 9, item = Pin (InnerPin 3), children = []\<rparr>,
     \<lparr>parent = Some 8, item = Pin (InnerPin 2), children = []\<rparr>,
     \<lparr>parent = Some 6, item = Port 2, children = [(Pin (InnerPin 2), 15)]\<rparr>,
     \<lparr>parent = Some 6, item = Port 3, children = [(Pin (InnerPin 3), 14)]\<rparr>,
     \<lparr>parent = Some 13, item = Pin (InnerPin 3), children = []\<rparr>,
     \<lparr>parent = Some 12, item = Pin (InnerPin 2), children = []\<rparr>,
     \<lparr>parent = Some 5, item = Wire 2, children = []\<rparr>,
     \<lparr>parent = Some 4, item = Wire 1, children = []\<rparr>,
     \<lparr>parent = Some 3, item = Wire 0, children = []\<rparr>,
     \<lparr>parent = Some 2, item = Pin (InnerPin 1), children = []\<rparr>,
     \<lparr>parent = Some 1, item = Pin (InnerPin 0), children = []\<rparr>]"

text \<open>The same netlist with no identifier on instance \<open>A\<close>.\<close>

definition nameless_A :: netlist where
  "nameless_A = chain\<lparr>element_data := (element_data chain)(Instance 1 := Map.empty)\<rparr>"

section \<open>The seed wires, as the specification words them\<close>

text \<open>
  For an instance: the wires of its pins whose inner pin's port has direction \<open>OUT\<close> or
  \<open>INOUT\<close> and whose wire is not \<^verbatim>\<open>None\<close>, in the order of the pins.
\<close>

definition instance_seed_wires :: "netlist \<Rightarrow> nat \<Rightarrow> nat list" where
  "instance_seed_wires nl i =
     List.map_filter
       (\<lambda>q. if port_direction nl (innerpin_port nl q) \<in> {OUT, INOUT} then outerpin_wire nl i q else None)
       (instance_pins nl i)"

text \<open>
  For a port: nothing unless its direction is \<open>IN\<close> or \<open>INOUT\<close>; then the wires of its
  pins that have one.
\<close>

definition port_seed_wires :: "netlist \<Rightarrow> nat \<Rightarrow> nat list" where
  "port_seed_wires nl p =
     (if port_direction nl p \<in> {IN, INOUT} then List.map_filter (innerpin_wire nl) (port_pins nl p) else [])"

text \<open>The nodes on the search stack in the order they were pushed.\<close>

definition seeds :: "search \<Rightarrow> (error + nat) list" where
  "seeds s = map Inr (rev (search_stack s))"

section \<open>The shape of the tree of hierarchy nodes\<close>

text \<open>
  The elements for which \<open>generate_nodes\<close> creates a child under a node that wraps \<open>x\<close>:
  the loops of lines 91 to 102, 104 to 107 and 109 to 112, in that order.
\<close>

fun child_elements :: "netlist \<Rightarrow> element \<Rightarrow> element list" where
  "child_elements nl (Instance i) =
     map Port (definition_ports nl (instance_reference nl i))
     @ map Cable (definition_cables nl (instance_reference nl i))
     @ map Instance (definition_children nl (instance_reference nl i))"
| "child_elements nl (Port p) = map (\<lambda>q. Pin (InnerPin q)) (port_pins nl p)"
| "child_elements nl (Cable c) = map Wire (cable_wires nl c)"
| "child_elements nl _ = []"

text \<open>
  The nodes a call creates in a store are those from the address \<open>b\<close> of its top node on.
  \<open>kids_ok\<close>: every entry of a \<^verbatim>\<open>children\<close> dictionary leads to a later node whose
  parent and item are the owner and the key.
\<close>

definition kids_ok :: "nat \<Rightarrow> heap \<Rightarrow> bool" where
  "kids_ok b h \<longleftrightarrow>
     (\<forall>a e c. b \<le> a \<and> a < length h \<and> (e, c) \<in> set (children (h ! a)) \<longrightarrow>
        a < c \<and> c < length h \<and> parent (h ! c) = Some a \<and> item (h ! c) = e)"

text \<open>The top node has no parent; every other node has an earlier node as its parent.\<close>

definition parents_ok :: "nat \<Rightarrow> heap \<Rightarrow> bool" where
  "parents_ok b h \<longleftrightarrow>
     b < length h \<and> parent (h ! b) = None
     \<and> (\<forall>a. b < a \<and> a < length h \<longrightarrow> (\<exists>p. parent (h ! a) = Some p \<and> b \<le> p \<and> p < a))"

text \<open>Every node but the top one is the entry of its parent for its item.\<close>

definition registered :: "nat \<Rightarrow> heap \<Rightarrow> bool" where
  "registered b h \<longleftrightarrow>
     (\<forall>a p. b < a \<and> a < length h \<and> parent (h ! a) = Some p \<longrightarrow>
        map_of (children (h ! p)) (item (h ! a)) = Some a)"

text \<open>Every node that is not pending has its children, those of \<open>child_elements\<close>.\<close>

definition expanded :: "netlist \<Rightarrow> nat \<Rightarrow> heap \<Rightarrow> nat set \<Rightarrow> bool" where
  "expanded nl b h pending \<longleftrightarrow>
     (\<forall>a. b \<le> a \<and> a < length h \<and> a \<notin> pending \<longrightarrow>
        fst ` set (children (h ! a)) = set (child_elements nl (item (h ! a))))"

text \<open>The nodes on the search stack have no children yet.\<close>

definition unexpanded :: "nat \<Rightarrow> heap \<Rightarrow> nat list \<Rightarrow> bool" where
  "unexpanded b h st \<longleftrightarrow> (\<forall>a \<in> set st. b \<le> a \<and> a < length h \<and> children (h ! a) = [])"

text \<open>
  The invariant inside the loops that create the children of \<open>node\<close>, whose keys so far are
  \<open>keys\<close>, and the invariant of the \<^verbatim>\<open>while\<close> loop of \<open>generate_nodes\<close>.
\<close>

definition gen_inv :: "netlist \<Rightarrow> nat \<Rightarrow> heap \<Rightarrow> nat list \<Rightarrow> nat \<Rightarrow> element set \<Rightarrow> bool" where
  "gen_inv nl b h st node keys \<longleftrightarrow>
     kids_ok b h \<and> parents_ok b h \<and> unexpanded b h st \<and> expanded nl b h (insert node (set st))
     \<and> distinct st \<and> b \<le> node \<and> node < length h \<and> node \<notin> set st
     \<and> fst ` set (children (h ! node)) = keys"

definition loop_inv :: "netlist \<Rightarrow> nat \<Rightarrow> heap \<Rightarrow> nat list \<Rightarrow> bool" where
  "loop_inv nl b h st \<longleftrightarrow>
     kids_ok b h \<and> parents_ok b h \<and> unexpanded b h st \<and> expanded nl b h (set st) \<and> distinct st"

text \<open>No sequence of the netlist lists an element twice.\<close>

definition no_repeats :: "netlist \<Rightarrow> bool" where
  "no_repeats nl \<longleftrightarrow>
     (\<forall>d. distinct (definition_ports nl d) \<and> distinct (definition_cables nl d)
          \<and> distinct (definition_children nl d))
     \<and> (\<forall>p. distinct (port_pins nl p)) \<and> (\<forall>c. distinct (cable_wires nl c))"

text \<open>What \<open>generate_nodes\<close> establishes for the nodes it has created.\<close>

definition hierarchy :: "netlist \<Rightarrow> nat \<Rightarrow> heap \<Rightarrow> bool" where
  "hierarchy nl b h \<longleftrightarrow>
     kids_ok b h \<and> parents_ok b h \<and> expanded nl b h {} \<and> item (h ! b) = Instance (top_instance nl)"

section \<open>The measure of the downstream search\<close>

text \<open>The instance node two levels above a wire node, counted from the end of the store.\<close>

definition wire_rank :: "heap \<Rightarrow> nat \<Rightarrow> nat" where
  "wire_rank h wire_node =
     (case parent (h ! wire_node) of
        None \<Rightarrow> length h
      | Some cable_node \<Rightarrow>
          (case parent (h ! cable_node) of None \<Rightarrow> length h | Some i \<Rightarrow> length h - i))"

text \<open>The order in which the states of the search decrease.\<close>

definition search_order :: "heap \<Rightarrow> (search \<times> search) set" where
  "search_order h =
     inv_image (less_than <*lex*> mult less_than)
       (\<lambda>s. (card ({..<length h} - found_pin_nodes s), mset (map (wire_rank h) (search_stack s))))"

text \<open>One pass of the loop body keeps what was found and pushes on top of the stack.\<close>

definition progress :: "heap \<Rightarrow> nat \<Rightarrow> nat \<Rightarrow> search \<Rightarrow> search \<Rightarrow> bool" where
  "progress h root k s s' \<longleftrightarrow>
     found_pin_nodes s \<subseteq> found_pin_nodes s'
     \<and> (\<exists>pushed. search_stack s' = pushed @ search_stack s
           \<and> (\<forall>x \<in> set pushed. root \<le> x \<and> x < length h)
           \<and> (card ({..<length h} - found_pin_nodes s') < card ({..<length h} - found_pin_nodes s)
                \<or> (\<forall>x \<in> set pushed. wire_rank h x < k)))"

text \<open>
  The scenario with a feedback loop: the output of \<open>B\<close> drives the input of \<open>A\<close> as well as
  \<open>P_out\<close>, and the wire of \<open>P_in\<close> reaches no instance. The hierarchy is that of the scenario.
\<close>

definition ring :: netlist where
  "ring = chain\<lparr>
     wire_pins := (\<lambda>w. if w = 0 then [InnerPin 0]
                       else if w = 1 then [OuterPin 1 3, OuterPin 2 2]
                       else [OuterPin 2 3, OuterPin 1 2, InnerPin 1]),
     outerpin_wire := (\<lambda>i q. if i = 1 \<and> q = 2 then Some 2
                             else if i = 1 \<and> q = 3 then Some 1
                             else if i = 2 \<and> q = 2 then Some 1
                             else if i = 2 \<and> q = 3 then Some 2
                             else None)\<rparr>"

section \<open>The nodes of the tree and the selected nodes\<close>

text \<open>A node and a node in its \<^verbatim>\<open>children\<close> dictionary.\<close>

definition kid :: "heap \<Rightarrow> (nat \<times> nat) set" where
  "kid h = {(p, c). c \<in> snd ` set (children (h ! p))}"

text \<open>The nodes of the tree under \<open>root\<close>: those reached through the dictionaries.\<close>

definition tree_nodes :: "heap \<Rightarrow> nat \<Rightarrow> nat set" where
  "tree_nodes h root = {a. (root, a) \<in> (kid h)\<^sup>*}"

text \<open>A node that wraps an instance of a leaf definition.\<close>

definition leaf_node :: "netlist \<Rightarrow> heap \<Rightarrow> nat \<Rightarrow> bool" where
  "leaf_node nl h a \<longleftrightarrow>
     (\<exists>i. item (h ! a) = Instance i \<and> definition_is_leaf nl (instance_reference nl i))"

text \<open>A leaf definition has no child instances.\<close>

definition leaves_childless :: "netlist \<Rightarrow> bool" where
  "leaves_childless nl \<longleftrightarrow> (\<forall>d. definition_is_leaf nl d \<longrightarrow> definition_children nl d = [])"

fun is_Instance :: "element \<Rightarrow> bool" where
  "is_Instance (Instance i) = True"
| "is_Instance _ = False"

text \<open>The leaf instance nodes at or below the nodes of a stack.\<close>

definition leaves_below :: "netlist \<Rightarrow> heap \<Rightarrow> nat list \<Rightarrow> nat set" where
  "leaves_below nl h st = {a. leaf_node nl h a \<and> (\<exists>x \<in> set st. (x, a) \<in> (kid h)\<^sup>*)}"

text \<open>
  The nodes \<open>get_connectivity_graph\<close> selects: the leaf instance nodes of the tree and, with
  top ports included, the port nodes of the top node.
\<close>

definition selected :: "netlist \<Rightarrow> heap \<Rightarrow> nat \<Rightarrow> bool \<Rightarrow> nat set" where
  "selected nl h root include_top_ports =
     {a \<in> tree_nodes h root. leaf_node nl h a}
     \<union> (if include_top_ports then set (get_top_port_nodes h root) else {})"

text \<open>A wire node two levels below an instance node of the tree.\<close>

definition under_tree :: "heap \<Rightarrow> nat \<Rightarrow> nat \<Rightarrow> bool" where
  "under_tree h root x \<longleftrightarrow>
     (\<exists>cn i. parent (h ! x) = Some cn \<and> parent (h ! cn) = Some i \<and> i \<in> tree_nodes h root)"

text \<open>The invariant of the search: where the stack is, and what the results are.\<close>

definition search_ok :: "netlist \<Rightarrow> heap \<Rightarrow> nat \<Rightarrow> bool \<Rightarrow> search \<Rightarrow> bool" where
  "search_ok nl h root include_top_ports s \<longleftrightarrow>
     (\<forall>x \<in> set (search_stack s). under_tree h root x)
     \<and> set (downstream_nodes s) \<subseteq> selected nl h root include_top_ports"

text \<open>The edges from the nodes of a list to their downstream nodes.\<close>

definition downstream_edges :: "nat \<Rightarrow> netlist \<Rightarrow> heap \<Rightarrow> bool \<Rightarrow> nat set \<Rightarrow> (nat \<times> nat) set" where
  "downstream_edges fuel nl h b ns =
     {(n, d). n \<in> ns \<and> (\<exists>ds. get_downstream_nodes fuel nl h n b = Some (Inr ds) \<and> d \<in> set ds)}"

text \<open>The graph before the edges are added.\<close>

definition node_graph :: "nat list \<Rightarrow> nat list \<Rightarrow> bool \<Rightarrow> DiGraph" where
  "node_graph leaf_instance_nodes top_port_nodes include_top_ports =
     (let g1 = add_nodes_from empty_graph leaf_instance_nodes
      in if include_top_ports then add_nodes_from g1 top_port_nodes else g1)"

fun is_Wire_or_Pin :: "element \<Rightarrow> bool" where
  "is_Wire_or_Pin (Wire w) = True"
| "is_Wire_or_Pin (Pin q) = True"
| "is_Wire_or_Pin _ = False"

section \<open>The same tree at another place of the store\<close>

text \<open>
  A call that starts in a store \<open>h0\<close> creates the nodes that a call in the empty store
  creates, with every address moved by the length of \<open>h0\<close>.
\<close>

definition shift_node :: "nat \<Rightarrow> Node \<Rightarrow> Node" where
  "shift_node d n =
     \<lparr>parent = map_option (\<lambda>p. p + d) (parent n), item = item n,
      children = map (\<lambda>kv. (fst kv, snd kv + d)) (children n)\<rparr>"

definition relocate :: "heap \<Rightarrow> heap \<Rightarrow> heap" where
  "relocate h0 t = h0 @ map (shift_node (length h0)) t"

definition shift_search :: "nat \<Rightarrow> search \<Rightarrow> search" where
  "shift_search d s =
     \<lparr>found_pin_nodes = (\<lambda>a. a + d) ` found_pin_nodes s,
      search_stack = map (\<lambda>a. a + d) (search_stack s),
      downstream_nodes = map (\<lambda>a. a + d) (downstream_nodes s)\<rparr>"

definition shift_graph :: "nat \<Rightarrow> DiGraph \<Rightarrow> DiGraph" where
  "shift_graph d g =
     \<lparr>nodes = map (\<lambda>a. a + d) (nodes g), edges = map (\<lambda>e. (fst e + d, snd e + d)) (edges g)\<rparr>"

text \<open>An exception is the same exception; a result moves.\<close>

definition shift_result :: "('a \<Rightarrow> 'b) \<Rightarrow> error + 'a \<Rightarrow> error + 'b" where
  "shift_result f r = (case r of Inl e \<Rightarrow> Inl e | Inr x \<Rightarrow> Inr (f x))"

section \<open>A port below the top and the consistency of the wiring\<close>

text \<open>
  Top instance 0 of definition 0, whose only child is instance 1 of definition 1. Definition
  1 has the input port 0 with pin 0, the cable 0 with wire 0 and the child instance 2 of the
  leaf definition 2, which has the input port 1 with pin 1. Inside definition 1, wire 0 joins
  port 0 and the input of instance 2. Port 0 is a port of instance 1, not of the top instance.
\<close>

definition nested :: netlist where
  "nested = \<lparr>
     top_instance = 0,
     instance_reference = (\<lambda>i. i),
     instance_pins = (\<lambda>i. if i = 1 then [0] else if i = 2 then [1] else []),
     definition_ports = (\<lambda>d. if d = 1 then [0] else if d = 2 then [1] else []),
     definition_cables = (\<lambda>d. if d = 1 then [0] else []),
     definition_children = (\<lambda>d. if d = 0 then [1] else if d = 1 then [2] else []),
     definition_is_leaf = (\<lambda>d. d = 2),
     port_direction = (\<lambda>p. IN),
     port_pins = (\<lambda>p. [p]),
     cable_wires = (\<lambda>c. [c]),
     wire_cable = (\<lambda>w. w),
     wire_pins = (\<lambda>w. [InnerPin 0, OuterPin 2 1]),
     innerpin_port = (\<lambda>q. q),
     innerpin_wire = (\<lambda>q. if q = 0 then Some 0 else None),
     outerpin_wire = (\<lambda>i q. if i = 2 \<and> q = 1 then Some 0 else None),
     element_data = (\<lambda>x. Map.empty)\<rparr>"

text \<open>The store that \<open>generate_nodes\<close> builds for it from the empty store.\<close>

definition nested_heap :: heap where
  "nested_heap =
    [\<lparr>parent = None, item = Instance 0, children = [(Instance 1, 1)]\<rparr>,
     \<lparr>parent = Some 0, item = Instance 1,
        children = [(Port 0, 2), (Cable 0, 3), (Instance 2, 4)]\<rparr>,
     \<lparr>parent = Some 1, item = Port 0, children = [(Pin (InnerPin 0), 8)]\<rparr>,
     \<lparr>parent = Some 1, item = Cable 0, children = [(Wire 0, 7)]\<rparr>,
     \<lparr>parent = Some 1, item = Instance 2, children = [(Port 1, 5)]\<rparr>,
     \<lparr>parent = Some 4, item = Port 1, children = [(Pin (InnerPin 1), 6)]\<rparr>,
     \<lparr>parent = Some 5, item = Pin (InnerPin 1), children = []\<rparr>,
     \<lparr>parent = Some 3, item = Wire 0, children = []\<rparr>,
     \<lparr>parent = Some 2, item = Pin (InnerPin 0), children = []\<rparr>]"

text \<open>
  The netlist classes keep a wire in a cable of the definition that holds the pins it joins:
  the wire of a pin of an instance, and the wire of a pin of a port, lies in a cable of the
  definition of the instance that the parent node wraps.
\<close>

definition wire_in_instance :: "netlist \<Rightarrow> heap \<Rightarrow> nat option \<Rightarrow> nat \<Rightarrow> bool" where
  "wire_in_instance nl h parent_instance w =
     (case parent_instance of
        None \<Rightarrow> False
      | Some a \<Rightarrow>
          (case item (h ! a) of
             Instance j \<Rightarrow>
               wire_cable nl w \<in> set (definition_cables nl (instance_reference nl j))
               \<and> w \<in> set (cable_wires nl (wire_cable nl w))
           | _ \<Rightarrow> False))"

text \<open>
  Every pin of the instance from which a seed is taken is a pin of a port of the definition
  of the instance, and its wire is where the classes keep it.
\<close>

definition instance_pins_wired :: "netlist \<Rightarrow> heap \<Rightarrow> nat \<Rightarrow> nat \<Rightarrow> bool" where
  "instance_pins_wired nl h node i \<longleftrightarrow>
     (\<forall>q \<in> set (instance_pins nl i).
        case outerpin_wire nl i q of
          None \<Rightarrow> True
        | Some w \<Rightarrow>
            port_direction nl (innerpin_port nl q) \<in> {OUT, INOUT} \<longrightarrow>
              innerpin_port nl q \<in> set (definition_ports nl (instance_reference nl i))
              \<and> q \<in> set (port_pins nl (innerpin_port nl q))
              \<and> wire_in_instance nl h (parent (h ! node)) w)"

definition port_pins_wired :: "netlist \<Rightarrow> heap \<Rightarrow> nat \<Rightarrow> nat \<Rightarrow> bool" where
  "port_pins_wired nl h node p \<longleftrightarrow>
     (port_direction nl p \<in> {IN, INOUT} \<longrightarrow>
        (\<forall>q \<in> set (port_pins nl p).
           case innerpin_wire nl q of
             None \<Rightarrow> True
           | Some w \<Rightarrow> wire_in_instance nl h (parent (h ! node)) w))"

section \<open>The graph without the top ports\<close>


text \<open>The part of a graph on the nodes that satisfy a predicate.\<close>

definition restrict_graph :: "(nat \<Rightarrow> bool) \<Rightarrow> DiGraph \<Rightarrow> DiGraph" where
  "restrict_graph P g =
     \<lparr>nodes = filter P (nodes g), edges = filter (\<lambda>e. P (fst e) \<and> P (snd e)) (edges g)\<rparr>"

definition nonport :: "heap \<Rightarrow> nat \<Rightarrow> bool" where
  "nonport h a \<longleftrightarrow> \<not> is_Port (item (h ! a))"

text \<open>A state of the search with the port nodes taken out of the results.\<close>

definition drop_ports :: "heap \<Rightarrow> search \<Rightarrow> search" where
  "drop_ports h s = s\<lparr>downstream_nodes := filter (nonport h) (downstream_nodes s)\<rparr>"

section \<open>Properties\<close>

subsection \<open>The scenario\<close>

text \<open>
  Claim C1. In the scenario the graph with top ports should have the nodes \<open>A\<close>, \<open>B\<close>,
  \<open>P_in\<close>, \<open>P_out\<close> and exactly the edges \<open>P_in \<rightarrow> A\<close>, \<open>A \<rightarrow> B\<close>, \<open>B \<rightarrow> P_out\<close>, and the
  graph without top ports the nodes \<open>A\<close>, \<open>B\<close> and the edge \<open>A \<rightarrow> B\<close>. The code returns
  these nodes (7 is \<open>B\<close>, 6 is \<open>A\<close>, 1 is \<open>P_in\<close>, 2 is \<open>P_out\<close>), and with these edges
  the loops \<open>A \<rightarrow> A\<close> and \<open>B \<rightarrow> B\<close>: the wire a leaf instance drives holds the driving
  outer pin too, and lines 208 and 209 append the leaf instance of every outer pin on the wire.
\<close>

theorem chain_graph:
  "get_connectivity_graph 30 chain [] True
     = Some (chain_heap, Inr \<lparr>nodes = [7, 6, 1, 2], edges = [(7, 7), (7, 2), (6, 6), (6, 7), (1, 6)]\<rparr>)
   \<and> get_connectivity_graph 30 chain [] False
     = Some (chain_heap, Inr \<lparr>nodes = [7, 6], edges = [(7, 7), (6, 6), (6, 7)]\<rparr>)
   \<and> map (\<lambda>n. item (chain_heap ! n)) [7, 6, 1, 2] = [Instance 2, Instance 1, Port 0, Port 1]"
  by code_simp

subsection \<open>The seed step\<close>

lemma ebind_Inr_iff: "ebind m f = Inr y \<longleftrightarrow> (\<exists>x. m = Inr x \<and> f x = Inr y)"
  by (cases m) (simp_all add: ebind_def)

lemma push_wire_Some:
  "push_wire nl h p (Some w) s = Inr s' \<Longrightarrow>
     seeds s' = seeds s @ [wire_node_of nl h p w] \<and> downstream_nodes s' = downstream_nodes s
     \<and> found_pin_nodes s' = found_pin_nodes s"
  by (auto simp: push_wire_def ebind_Inr_iff seeds_def)

lemma seed_instance_pin_seeds:
  assumes "seed_instance_pin nl h node i s q = Inr s'"
  shows "seeds s' = seeds s @ map (wire_node_of nl h (parent (h ! node)))
                 (List.map_filter (\<lambda>q. if port_direction nl (innerpin_port nl q) \<in> {OUT, INOUT} then outerpin_wire nl i q else None) [q])
         \<and> downstream_nodes s' = downstream_nodes s"
  using assms
  by (auto simp: seed_instance_pin_def ebind_Inr_iff seeds_def
      split: option.splits if_splits dest!: push_wire_Some)

lemma seed_instance_loop_seeds:
  "for_each (seed_instance_pin nl h node i) qs s = Inr s' \<Longrightarrow>
   seeds s' = seeds s @ map (wire_node_of nl h (parent (h ! node)))
                 (List.map_filter (\<lambda>q. if port_direction nl (innerpin_port nl q) \<in> {OUT, INOUT} then outerpin_wire nl i q else None) qs)
   \<and> downstream_nodes s' = downstream_nodes s"
proof (induction qs arbitrary: s)
  case Nil
  then show ?case by simp
next
  case (Cons q qs)
  from Cons.prems obtain s1 where s1: "seed_instance_pin nl h node i s q = Inr s1"
    and rest: "for_each (seed_instance_pin nl h node i) qs s1 = Inr s'"
    by (auto split: sum.splits)
  from seed_instance_pin_seeds[OF s1] Cons.IH[OF rest] show ?case
    by (auto split: option.splits)
qed

lemma seed_port_pin_seeds:
  assumes "seed_port_pin nl h node s q = Inr s'"
  shows "seeds s' = seeds s @ map (wire_node_of nl h (parent (h ! node))) (List.map_filter (innerpin_wire nl) [q])
         \<and> downstream_nodes s' = downstream_nodes s"
  using assms
  by (auto simp: seed_port_pin_def ebind_Inr_iff seeds_def
      split: option.splits if_splits dest!: push_wire_Some)

lemma seed_port_loop_seeds:
  "for_each (seed_port_pin nl h node) qs s = Inr s' \<Longrightarrow>
   seeds s' = seeds s @ map (wire_node_of nl h (parent (h ! node))) (List.map_filter (innerpin_wire nl) qs)
   \<and> downstream_nodes s' = downstream_nodes s"
proof (induction qs arbitrary: s)
  case Nil
  then show ?case by simp
next
  case (Cons q qs)
  from Cons.prems obtain s1 where s1: "seed_port_pin nl h node s q = Inr s1"
    and rest: "for_each (seed_port_pin nl h node) qs s1 = Inr s'"
    by (auto split: sum.splits)
  from seed_port_pin_seeds[OF s1] Cons.IH[OF rest] show ?case
    by (auto split: option.splits)
qed

lemma seeds_empty: "seeds empty_search = []" "downstream_nodes empty_search = []"
  by (simp_all add: seeds_def empty_search_def)

subsection \<open>generate_nodes builds a tree\<close>

lemma new_child_eq:
  "node < length h \<Longrightarrow>
   new_child node (h, st) x =
     (h[node := (h ! node)\<lparr>children := AList.update x (length h) (children (h ! node))\<rparr>]
        @ [Node_init (Some node) x], length h # st)"
  by (simp add: new_child_def Let_def list_update_append nth_append)

lemma new_child_length:
  "node < length h \<Longrightarrow> length (fst (new_child node (h, st) x)) = Suc (length h)"
  by (simp add: new_child_eq)

lemma new_child_old:
  assumes "node < length h" "a < length h"
  shows "parent (fst (new_child node (h, st) x) ! a) = parent (h ! a)"
    and "item (fst (new_child node (h, st) x) ! a) = item (h ! a)"
    and "a \<noteq> node \<Longrightarrow> children (fst (new_child node (h, st) x) ! a) = children (h ! a)"
  using assms by (auto simp: new_child_eq nth_append nth_list_update)

lemma new_child_node:
  "node < length h \<Longrightarrow>
   children (fst (new_child node (h, st) x) ! node) = AList.update x (length h) (children (h ! node))"
  by (simp add: new_child_eq nth_append)

lemma new_child_new:
  "node < length h \<Longrightarrow> fst (new_child node (h, st) x) ! length h = Node_init (Some node) x"
  by (simp add: new_child_eq nth_append)

lemma new_child_stack: "snd (new_child node (h, st) x) = length h # st"
  by (simp add: new_child_def Let_def)

lemma set_update_subset: "set (AList.update k v al) \<subseteq> insert (k, v) (set al)"
  by (induction al) auto

lemma kids_ok_new_child:
  assumes k: "kids_ok b h" and n: "b \<le> node" "node < length h"
  shows "kids_ok b (fst (new_child node (h, st) x))"
  unfolding kids_ok_def
proof (intro allI impI)
  fix a e c
  let ?h = "fst (new_child node (h, st) x)"
  assume A: "b \<le> a \<and> a < length ?h \<and> (e, c) \<in> set (children (?h ! a))"
  have len: "length ?h = Suc (length h)" using n by (simp add: new_child_length)
  show "a < c \<and> c < length ?h \<and> parent (?h ! c) = Some a \<and> item (?h ! c) = e"
  proof (cases "a = length h")
    case True
    with A n show ?thesis by (simp add: new_child_new Node_init_def)
  next
    case False
    with A len have al: "a < length h" by simp
    show ?thesis
    proof (cases "a = node")
      case True
      with A n have "(e, c) \<in> insert (x, length h) (set (children (h ! node)))"
        using set_update_subset by (fastforce simp: new_child_node)
      then show ?thesis
      proof
        assume "(e, c) = (x, length h)"
        with True n len show ?thesis by (simp add: new_child_new Node_init_def)
      next
        assume "(e, c) \<in> set (children (h ! node))"
        with k n True have "a < c \<and> c < length h \<and> parent (h ! c) = Some a \<and> item (h ! c) = e"
          unfolding kids_ok_def by blast
        with n len show ?thesis by (simp add: new_child_old)
      qed
    next
      case False
      with A al n have "(e, c) \<in> set (children (h ! a))" by (simp add: new_child_old)
      with k A al have "a < c \<and> c < length h \<and> parent (h ! c) = Some a \<and> item (h ! c) = e"
        unfolding kids_ok_def by blast
      with n len show ?thesis by (simp add: new_child_old)
    qed
  qed
qed

lemma parents_ok_new_child:
  assumes k: "parents_ok b h" and n: "b \<le> node" "node < length h"
  shows "parents_ok b (fst (new_child node (h, st) x))"
proof -
  let ?h = "fst (new_child node (h, st) x)"
  have len: "length ?h = Suc (length h)" using n by (simp add: new_child_length)
  have b: "b < length h" using k by (simp add: parents_ok_def)
  have "\<exists>p. parent (?h ! a) = Some p \<and> b \<le> p \<and> p < a" if "b < a" "a < length ?h" for a
  proof (cases "a = length h")
    case True
    with n show ?thesis by (simp add: new_child_new Node_init_def)
  next
    case False
    with that len have "a < length h" by simp
    with k that n show ?thesis by (simp add: parents_ok_def new_child_old)
  qed
  with k n b len show ?thesis by (simp add: parents_ok_def new_child_old)
qed

lemma unexpanded_new_child:
  assumes u: "unexpanded b h st" and n: "b \<le> node" "node < length h" "node \<notin> set st"
  shows "unexpanded b (fst (new_child node (h, st) x)) (snd (new_child node (h, st) x))"
proof -
  let ?h = "fst (new_child node (h, st) x)"
  have "b \<le> a \<and> a < length ?h \<and> children (?h ! a) = []" if "a \<in> set (length h # st)" for a
  proof (cases "a = length h")
    case True
    with n show ?thesis by (simp add: new_child_length new_child_new Node_init_def)
  next
    case False
    with that have "a \<in> set st" by simp
    with u n have "b \<le> a" "a < length h" "children (h ! a) = []" "a \<noteq> node"
      by (auto simp: unexpanded_def)
    with n show ?thesis by (simp add: new_child_length new_child_old)
  qed
  then show ?thesis by (simp add: unexpanded_def new_child_stack)
qed

lemma expanded_new_child:
  assumes e: "expanded nl b h pending" and n: "b \<le> node" "node < length h" "node \<in> pending"
  shows "expanded nl b (fst (new_child node (h, st) x)) (insert (length h) pending)"
  unfolding expanded_def
proof (intro allI impI)
  fix a
  let ?h = "fst (new_child node (h, st) x)"
  assume "b \<le> a \<and> a < length ?h \<and> a \<notin> insert (length h) pending"
  with n have "b \<le> a" "a < length h" "a \<notin> pending" "a \<noteq> node"
    by (auto simp: new_child_length)
  with e n show "fst ` set (children (?h ! a)) = set (child_elements nl (item (?h ! a)))"
    by (simp add: expanded_def new_child_old)
qed

lemma registered_new_child:
  assumes r: "registered b h" and p: "parents_ok b h" and n: "b \<le> node" "node < length h"
    and fresh: "x \<notin> fst ` set (children (h ! node))"
  shows "registered b (fst (new_child node (h, st) x))"
  unfolding registered_def
proof (intro allI impI)
  fix a q
  let ?h = "fst (new_child node (h, st) x)"
  assume A: "b < a \<and> a < length ?h \<and> parent (?h ! a) = Some q"
  have len: "length ?h = Suc (length h)" using n by (simp add: new_child_length)
  show "map_of (children (?h ! q)) (item (?h ! a)) = Some a"
  proof (cases "a = length h")
    case True
    with A n have "q = node" by (simp add: new_child_new Node_init_def)
    with True n show ?thesis by (simp add: new_child_new new_child_node Node_init_def AList.update_conv')
  next
    case False
    with A len have al: "a < length h" by simp
    with A n have pa: "parent (h ! a) = Some q" by (simp add: new_child_old)
    with p A al have ql: "q < length h" unfolding parents_ok_def by fastforce
    from r A al pa have reg: "map_of (children (h ! q)) (item (h ! a)) = Some a"
      unfolding registered_def by blast
    show ?thesis
    proof (cases "q = node")
      case True
      from reg True have "item (h ! a) \<in> fst ` set (children (h ! node))"
        by (metis map_of_eq_None_iff option.distinct(1))
      with fresh have "item (h ! a) \<noteq> x" by blast
      with True reg n al show ?thesis
        by (simp add: new_child_node new_child_old AList.update_conv')
    next
      case False
      with reg n al ql show ?thesis by (simp add: new_child_old)
    qed
  qed
qed

lemma gen_inv_new_child:
  assumes "gen_inv nl b h st node keys"
  shows "gen_inv nl b (fst (new_child node (h, st) x)) (snd (new_child node (h, st) x)) node
           (insert x keys)"
proof -
  from assms have k: "kids_ok b h" and p: "parents_ok b h" and u: "unexpanded b h st"
    and e: "expanded nl b h (insert node (set st))" and d: "distinct st"
    and n: "b \<le> node" "node < length h" "node \<notin> set st"
    and ks: "fst ` set (children (h ! node)) = keys"
    by (simp_all add: gen_inv_def)
  have st: "\<forall>a \<in> set st. a < length h" using u by (simp add: unexpanded_def)
  have "expanded nl b (fst (new_child node (h, st) x)) (insert (length h) (insert node (set st)))"
    using expanded_new_child[OF e n(1,2)] by simp
  then have e': "expanded nl b (fst (new_child node (h, st) x)) (insert node (set (length h # st)))"
    by (simp add: insert_commute)
  have d': "distinct (length h # st)" using d st by auto
  have n': "node \<notin> set (length h # st)" using n by auto
  have ks': "fst ` set (children (fst (new_child node (h, st) x) ! node)) = insert x keys"
    using n ks by (simp add: new_child_node AList.dom_update)
  show ?thesis
    unfolding gen_inv_def new_child_stack
    using kids_ok_new_child[OF k n(1,2)] parents_ok_new_child[OF p n(1,2)]
      unexpanded_new_child[OF u n, of x] e' d' n' ks' n
    by (simp add: new_child_stack new_child_length)
qed

lemma foldl_new_child_facts:
  "node < length h \<Longrightarrow>
   length h \<le> length (fst (foldl (new_child node) (h, st) xs))
   \<and> (\<forall>a < length h.
         item (fst (foldl (new_child node) (h, st) xs) ! a) = item (h ! a)
         \<and> parent (fst (foldl (new_child node) (h, st) xs) ! a) = parent (h ! a)
         \<and> (a \<noteq> node \<longrightarrow> fst (foldl (new_child node) (h, st) xs) ! a = h ! a))"
proof (induction xs arbitrary: h st)
  case Nil
  then show ?case by simp
next
  case (Cons x xs)
  let ?s = "new_child node (h, st) x"
  have n: "node < length (fst ?s)" using Cons.prems by (simp add: new_child_length)
  have o: "fst ?s ! a = h ! a" if "a < length h" "a \<noteq> node" for a
    using that Cons.prems by (simp add: new_child_eq nth_append)
  from Cons.IH[OF n, of "snd ?s"] Cons.prems o show ?case
    by (simp add: new_child_length new_child_old)
qed

lemma gen_inv_foldl:
  assumes "gen_inv nl b h st node keys"
  shows "gen_inv nl b (fst (foldl (new_child node) (h, st) xs)) (snd (foldl (new_child node) (h, st) xs))
           node (keys \<union> set xs)"
  using assms
proof (induction xs arbitrary: h st keys)
  case Nil
  then show ?case by simp
next
  case (Cons x xs)
  let ?s = "new_child node (h, st) x"
  from gen_inv_new_child[OF Cons.prems]
  have "gen_inv nl b (fst ?s) (snd ?s) node (insert x keys)" .
  from Cons.IH[OF this] show ?case by simp
qed

text \<open>The three loops over ports, cables and child instances are one loop over their concatenation.\<close>

lemma generate_loop_Suc:
  "generate_loop (Suc fuel) nl h (node # st) =
     (let s = foldl (new_child node) (h, st) (child_elements nl (item (h ! node)))
      in generate_loop fuel nl (fst s) (snd s))"
  by (cases "item (h ! node)") (simp_all add: Let_def)

lemma loop_inv_step:
  assumes "loop_inv nl b h (node # st)"
  shows "loop_inv nl b (fst (foldl (new_child node) (h, st) (child_elements nl (item (h ! node)))))
           (snd (foldl (new_child node) (h, st) (child_elements nl (item (h ! node)))))"
proof -
  let ?xs = "child_elements nl (item (h ! node))"
  let ?s = "foldl (new_child node) (h, st) ?xs"
  from assms have k: "kids_ok b h" and p: "parents_ok b h" and u: "unexpanded b h (node # st)"
    and e: "expanded nl b h (set (node # st))" and d: "distinct (node # st)"
    by (simp_all add: loop_inv_def)
  from u have n: "b \<le> node" "node < length h" "children (h ! node) = []"
    by (simp_all add: unexpanded_def)
  have "gen_inv nl b h st node {}"
    using k p u e d n by (simp add: gen_inv_def unexpanded_def)
  from gen_inv_foldl[OF this, of ?xs]
  have g: "gen_inv nl b (fst ?s) (snd ?s) node (set ?xs)" by simp
  have it: "item (fst ?s ! node) = item (h ! node)"
    using foldl_new_child_facts[OF n(2), of st ?xs] n by simp
  have "expanded nl b (fst ?s) (set (snd ?s))"
    unfolding expanded_def
  proof (intro allI impI)
    fix a assume A: "b \<le> a \<and> a < length (fst ?s) \<and> a \<notin> set (snd ?s)"
    show "fst ` set (children (fst ?s ! a)) = set (child_elements nl (item (fst ?s ! a)))"
    proof (cases "a = node")
      case True
      with g it show ?thesis by (simp add: gen_inv_def)
    next
      case False
      with g A show ?thesis by (simp add: gen_inv_def expanded_def)
    qed
  qed
  with g show ?thesis by (simp add: loop_inv_def gen_inv_def)
qed

lemma generate_loop_inv:
  "generate_loop fuel nl h st = Some h' \<Longrightarrow> loop_inv nl b h st \<Longrightarrow> loop_inv nl b h' []"
proof (induction fuel arbitrary: h st)
  case 0
  then show ?case by (cases st) simp_all
next
  case (Suc fuel)
  show ?case
  proof (cases st)
    case Nil
    with Suc.prems show ?thesis by simp
  next
    case (Cons node st')
    let ?s = "foldl (new_child node) (h, st') (child_elements nl (item (h ! node)))"
    from Suc.prems(1) Cons have "generate_loop fuel nl (fst ?s) (snd ?s) = Some h'"
      by (simp only: generate_loop_Suc Let_def)
    moreover have "loop_inv nl b (fst ?s) (snd ?s)"
      using loop_inv_step Suc.prems(2) Cons by simp
    ultimately show ?thesis by (rule Suc.IH)
  qed
qed

lemma distinct_child_elements: "no_repeats nl \<Longrightarrow> distinct (child_elements nl x)"
  by (cases x) (auto simp: no_repeats_def distinct_map inj_on_def)

lemma registered_foldl:
  assumes "gen_inv nl b h st node keys" "registered b h" "distinct xs" "keys \<inter> set xs = {}"
  shows "registered b (fst (foldl (new_child node) (h, st) xs))"
  using assms
proof (induction xs arbitrary: h st keys)
  case Nil
  then show ?case by simp
next
  case (Cons x xs)
  let ?s = "new_child node (h, st) x"
  from Cons.prems(1) have p: "parents_ok b h" and n: "b \<le> node" "node < length h"
    and ks: "fst ` set (children (h ! node)) = keys"
    by (simp_all add: gen_inv_def)
  from Cons.prems(4) ks have fresh: "x \<notin> fst ` set (children (h ! node))" by auto
  have g: "gen_inv nl b (fst ?s) (snd ?s) node (insert x keys)"
    by (rule gen_inv_new_child[OF Cons.prems(1)])
  have r: "registered b (fst ?s)"
    by (rule registered_new_child[OF Cons.prems(2) p n fresh])
  have "registered b (fst (foldl (new_child node) (fst ?s, snd ?s) xs))"
    using Cons.prems(3,4) by (intro Cons.IH[OF g r]) auto
  then show ?case by simp
qed

lemma generate_loop_registered:
  "generate_loop fuel nl h st = Some h' \<Longrightarrow> loop_inv nl b h st \<Longrightarrow> registered b h \<Longrightarrow>
   no_repeats nl \<Longrightarrow> registered b h'"
proof (induction fuel arbitrary: h st)
  case 0
  then show ?case by (cases st) simp_all
next
  case (Suc fuel)
  show ?case
  proof (cases st)
    case Nil
    with Suc.prems show ?thesis by simp
  next
    case (Cons node st')
    let ?xs = "child_elements nl (item (h ! node))"
    let ?s = "foldl (new_child node) (h, st') ?xs"
    from Suc.prems(1) Cons have run: "generate_loop fuel nl (fst ?s) (snd ?s) = Some h'"
      by (simp only: generate_loop_Suc Let_def)
    have li: "loop_inv nl b (fst ?s) (snd ?s)"
      using loop_inv_step Suc.prems(2) Cons by simp
    from Suc.prems(2) Cons have "gen_inv nl b h st' node {}"
      by (simp add: loop_inv_def gen_inv_def unexpanded_def)
    from registered_foldl[OF this Suc.prems(3) distinct_child_elements[OF Suc.prems(4)]]
    have "registered b (fst ?s)" by simp
    with run li Suc.prems(4) show ?thesis by (intro Suc.IH)
  qed
qed

lemma generate_loop_frame:
  "generate_loop fuel nl h st = Some h' \<Longrightarrow> loop_inv nl b h st \<Longrightarrow>
   length h \<le> length h'
   \<and> (\<forall>a < length h. item (h' ! a) = item (h ! a) \<and> parent (h' ! a) = parent (h ! a)
         \<and> (a < b \<longrightarrow> h' ! a = h ! a))"
proof (induction fuel arbitrary: h st)
  case 0
  then show ?case by (cases st) simp_all
next
  case (Suc fuel)
  show ?case
  proof (cases st)
    case Nil
    with Suc.prems show ?thesis by simp
  next
    case (Cons node st')
    let ?xs = "child_elements nl (item (h ! node))"
    let ?s = "foldl (new_child node) (h, st') ?xs"
    from Suc.prems(1) Cons have run: "generate_loop fuel nl (fst ?s) (snd ?s) = Some h'"
      by (simp only: generate_loop_Suc Let_def)
    have li: "loop_inv nl b (fst ?s) (snd ?s)"
      using loop_inv_step Suc.prems(2) Cons by simp
    from Suc.prems(2) Cons have n: "b \<le> node" "node < length h"
      by (simp_all add: loop_inv_def unexpanded_def)
    note f = foldl_new_child_facts[OF n(2), of st' ?xs]
    note ih = Suc.IH[OF run li]
    from f have le: "length h \<le> length (fst ?s)" by simp
    have "item (h' ! a) = item (h ! a) \<and> parent (h' ! a) = parent (h ! a)
         \<and> (a < b \<longrightarrow> h' ! a = h ! a)" if "a < length h" for a
    proof -
      from that le have "a < length (fst ?s)" by simp
      with ih have "item (h' ! a) = item (fst ?s ! a)" "parent (h' ! a) = parent (fst ?s ! a)"
        "a < b \<longrightarrow> h' ! a = fst ?s ! a" by simp_all
      moreover from f that have "item (fst ?s ! a) = item (h ! a)" "parent (fst ?s ! a) = parent (h ! a)"
        "a \<noteq> node \<longrightarrow> fst ?s ! a = h ! a" by simp_all
      ultimately show ?thesis using n by auto
    qed
    with ih le show ?thesis by simp
  qed
qed

lemma loop_inv_initial:
  "loop_inv nl (length h0) (h0 @ [Node_init None x]) [length h0]"
  by (auto simp: loop_inv_def kids_ok_def parents_ok_def unexpanded_def expanded_def Node_init_def
      nth_append less_Suc_eq)

lemma generate_nodes_hierarchy:
  assumes "generate_nodes fuel nl h0 = Some (h, root)"
  shows "root = length h0" and "hierarchy nl root h" and "\<forall>a < length h0. h ! a = h0 ! a"
    and "no_repeats nl \<Longrightarrow> registered root h"
proof -
  let ?h = "h0 @ [Node_init None (Instance (top_instance nl))]"
  from assms have top: "root = length h0" and run: "generate_loop fuel nl ?h [length h0] = Some h"
    by (auto simp: generate_nodes_def Let_def)
  show "root = length h0" by fact
  note li = loop_inv_initial[of nl h0 "Instance (top_instance nl)"]
  from generate_loop_inv[OF run li] have fin: "loop_inv nl (length h0) h []" .
  from generate_loop_frame[OF run li]
  have fr: "\<forall>a < Suc (length h0). item (h ! a) = item (?h ! a) \<and> (a < length h0 \<longrightarrow> h ! a = ?h ! a)"
    by simp
  then have "item (h ! length h0) = Instance (top_instance nl)" by (simp add: Node_init_def)
  with fin top show "hierarchy nl root h" by (simp add: hierarchy_def loop_inv_def)
  from fr show "\<forall>a < length h0. h ! a = h0 ! a" by (simp add: nth_append)
  have "registered (length h0) ?h" by (auto simp: registered_def)
  from generate_loop_registered[OF run li this] top
  show "no_repeats nl \<Longrightarrow> registered root h" by simp
qed

lemma gen_chain: "generate_nodes 30 chain [] = Some (chain_heap, 0)"
  by code_simp

lemma no_repeats_chain: "no_repeats chain"
  by (simp add: no_repeats_def chain_def)

text \<open>
  Claim C10. In the tree that \<open>generate_nodes\<close> builds, the top node has no parent and
  wraps the top instance of the netlist, and for every node \<open>n\<close> of the tree and every key
  \<open>e\<close> of \<^verbatim>\<open>n.children\<close> the child \<^verbatim>\<open>n.children[e]\<close> is a node of the tree whose parent
  is \<open>n\<close> and whose item is \<open>e\<close>. When no sequence of the netlist lists an element twice,
  every node created but the top one is the child of its parent under its item, so that no
  two nodes have the same parent and the same item.
\<close>

theorem generate_nodes_tree:
  assumes "generate_nodes fuel nl h0 = Some (h, root)"
  shows "parent (h ! root) = None \<and> item (h ! root) = Instance (top_instance nl)
    \<and> (\<forall>n e c. root \<le> n \<and> n < length h \<and> map_of (children (h ! n)) e = Some c \<longrightarrow>
          root < c \<and> c < length h \<and> parent (h ! c) = Some n \<and> item (h ! c) = e)
    \<and> (no_repeats nl \<longrightarrow>
         (\<forall>c. root < c \<and> c < length h \<longrightarrow>
            (\<exists>n. root \<le> n \<and> n < c \<and> parent (h ! c) = Some n
                 \<and> map_of (children (h ! n)) (item (h ! c)) = Some c))
         \<and> (\<forall>c c'. root \<le> c \<and> c < length h \<and> root \<le> c' \<and> c' < length h
               \<and> parent (h ! c) = parent (h ! c') \<and> item (h ! c) = item (h ! c') \<longrightarrow> c = c'))"
proof -
  note g = generate_nodes_hierarchy[OF assms]
  from g(2) have k: "kids_ok root h" and p: "parents_ok root h"
    and it: "item (h ! root) = Instance (top_instance nl)"
    by (simp_all add: hierarchy_def)
  from p have pr: "parent (h ! root) = None" by (simp add: parents_ok_def)
  have kids: "root < c \<and> c < length h \<and> parent (h ! c) = Some n \<and> item (h ! c) = e"
    if "root \<le> n \<and> n < length h \<and> map_of (children (h ! n)) e = Some c" for n e c
  proof -
    from that have "(e, c) \<in> set (children (h ! n))" by (auto dest: map_of_SomeD)
    with k that have "n < c \<and> c < length h \<and> parent (h ! c) = Some n \<and> item (h ! c) = e"
      unfolding kids_ok_def by blast
    with that show ?thesis by simp
  qed
  have reg: "\<exists>n. root \<le> n \<and> n < c \<and> parent (h ! c) = Some n
                 \<and> map_of (children (h ! n)) (item (h ! c)) = Some c"
    if nr: "no_repeats nl" and c: "root < c \<and> c < length h" for c
  proof -
    from p c obtain n where n: "parent (h ! c) = Some n" "root \<le> n" "n < c"
      unfolding parents_ok_def by blast
    from g(4)[OF nr] c n(1) have "map_of (children (h ! n)) (item (h ! c)) = Some c"
      unfolding registered_def by blast
    with n show ?thesis by blast
  qed
  have uniq: "c = c'"
    if nr: "no_repeats nl" and c: "root \<le> c \<and> c < length h \<and> root \<le> c' \<and> c' < length h
               \<and> parent (h ! c) = parent (h ! c') \<and> item (h ! c) = item (h ! c')" for c c'
  proof (cases "c = root")
    case True
    show ?thesis
    proof (rule ccontr)
      assume "c \<noteq> c'"
      with True c have "root < c' \<and> c' < length h" by simp
      from reg[OF nr this] c True pr show False by simp
    qed
  next
    case False
    with c have "root < c \<and> c < length h" by simp
    from reg[OF nr this] obtain n where n: "parent (h ! c) = Some n"
      "map_of (children (h ! n)) (item (h ! c)) = Some c" by blast
    with c pr have "c' \<noteq> root" by auto
    with c have "root < c' \<and> c' < length h" by simp
    from reg[OF nr this] obtain n' where n': "parent (h ! c') = Some n'"
      "map_of (children (h ! n')) (item (h ! c')) = Some c'" by blast
    from n n' c show ?thesis by simp
  qed
  from pr it kids reg uniq show ?thesis by blast
qed

theorem generate_nodes_tree_witness:
  "generate_nodes 30 chain [] = Some (chain_heap, 0)
   \<and> parent (chain_heap ! 0) = None \<and> item (chain_heap ! 0) = Instance (top_instance chain)
   \<and> map_of (children (chain_heap ! 0)) (Instance 1) = Some 6
   \<and> parent (chain_heap ! 6) = Some 0 \<and> item (chain_heap ! 6) = Instance 1
   \<and> no_repeats chain
   \<and> (\<exists>n. parent (chain_heap ! 13) = Some n \<and> map_of (children (chain_heap ! n)) (item (chain_heap ! 13)) = Some 13)"
proof -
  note t = generate_nodes_tree[OF gen_chain]
  have m: "(0::nat) \<le> 0 \<and> 0 < length chain_heap \<and> map_of (children (chain_heap ! 0)) (Instance 1) = Some 6"
    by (simp add: chain_heap_def)
  have c: "(0::nat) < 13 \<and> 13 < length chain_heap" by (simp add: chain_heap_def)
  note a = t[THEN conjunct1] t[THEN conjunct2, THEN conjunct1]
  note b = t[THEN conjunct2, THEN conjunct2, THEN conjunct1, THEN spec, THEN spec, THEN spec, THEN mp, OF m]
  note d = t[THEN conjunct2, THEN conjunct2, THEN conjunct2, THEN mp, OF no_repeats_chain,
      THEN conjunct1, THEN spec, THEN mp, OF c]
  from d obtain n where n: "parent (chain_heap ! 13) = Some n"
    "map_of (children (chain_heap ! n)) (item (chain_heap ! 13)) = Some 13" by fast
  have e: "\<exists>n. parent (chain_heap ! 13) = Some n \<and> map_of (children (chain_heap ! n)) (item (chain_heap ! 13)) = Some 13"
    using n by (intro exI[of _ n] conjI)
  from m have m': "map_of (children (chain_heap ! 0)) (Instance 1) = Some 6" by (rule conjunct2[THEN conjunct2])
  from b have b1: "parent (chain_heap ! 6) = Some 0" and b2: "item (chain_heap ! 6) = Instance 1"
    by (rule conjunct2[THEN conjunct2, THEN conjunct1], rule conjunct2[THEN conjunct2, THEN conjunct2])
  show ?thesis
    by (intro conjI gen_chain a m' b1 b2 no_repeats_chain e)
qed

text \<open>
  Claim C5, amended. In the tree that \<open>generate_nodes\<close> builds, the keys of the children
  of a node that wraps an instance, leaf or not, are the ports, the cables and the child
  instances of its definition; those of a port node are the pins of the port; those of a
  cable node are the wires of the cable; wire nodes and pin nodes have no children. Every
  child is a node whose parent is the owner and whose item is the key.
\<close>

theorem generate_nodes_children:
  assumes "generate_nodes fuel nl h0 = Some (h, root)" and "root \<le> n" and "n < length h"
  shows "(\<forall>i. item (h ! n) = Instance i \<longrightarrow>
            dom (map_of (children (h ! n))) =
              Port ` set (definition_ports nl (instance_reference nl i))
              \<union> Cable ` set (definition_cables nl (instance_reference nl i))
              \<union> Instance ` set (definition_children nl (instance_reference nl i)))
    \<and> (\<forall>p. item (h ! n) = Port p \<longrightarrow>
            dom (map_of (children (h ! n))) = (\<lambda>q. Pin (InnerPin q)) ` set (port_pins nl p))
    \<and> (\<forall>c. item (h ! n) = Cable c \<longrightarrow>
            dom (map_of (children (h ! n))) = Wire ` set (cable_wires nl c))
    \<and> (\<forall>w. item (h ! n) = Wire w \<longrightarrow> children (h ! n) = [])
    \<and> (\<forall>q. item (h ! n) = Pin q \<longrightarrow> children (h ! n) = [])
    \<and> (\<forall>e c. map_of (children (h ! n)) e = Some c \<longrightarrow>
            c < length h \<and> parent (h ! c) = Some n \<and> item (h ! c) = e)"
proof -
  note g = generate_nodes_hierarchy[OF assms(1)]
  from g(2) assms(2,3)
  have e: "fst ` set (children (h ! n)) = set (child_elements nl (item (h ! n)))"
    by (simp add: hierarchy_def expanded_def)
  then have d: "dom (map_of (children (h ! n))) = set (child_elements nl (item (h ! n)))"
    by (simp add: dom_map_of_conv_image_fst)
  from g(2) have ko: "kids_ok root h" by (simp add: hierarchy_def)
  have k: "\<forall>e c. map_of (children (h ! n)) e = Some c \<longrightarrow>
            c < length h \<and> parent (h ! c) = Some n \<and> item (h ! c) = e"
  proof (intro allI impI)
    fix e c assume "map_of (children (h ! n)) e = Some c"
    then have "(e, c) \<in> set (children (h ! n))" by (rule map_of_SomeD)
    with ko assms(2,3) show "c < length h \<and> parent (h ! c) = Some n \<and> item (h ! c) = e"
      unfolding kids_ok_def by blast
  qed
  from d e k show ?thesis by (auto simp: image_Un)
qed

theorem generate_nodes_children_witness:
  "generate_nodes 30 chain [] = Some (chain_heap, 0)
   \<and> item (chain_heap ! 0) = Instance 0
   \<and> dom (map_of (children (chain_heap ! 0))) =
        Port ` set (definition_ports chain (instance_reference chain 0))
        \<union> Cable ` set (definition_cables chain (instance_reference chain 0))
        \<union> Instance ` set (definition_children chain (instance_reference chain 0))
   \<and> item (chain_heap ! 1) = Port 0
   \<and> dom (map_of (children (chain_heap ! 1))) = (\<lambda>q. Pin (InnerPin q)) ` set (port_pins chain 0)
   \<and> item (chain_heap ! 3) = Cable 0
   \<and> dom (map_of (children (chain_heap ! 3))) = Wire ` set (cable_wires chain 0)
   \<and> item (chain_heap ! 18) = Wire 0 \<and> children (chain_heap ! 18) = []
   \<and> item (chain_heap ! 20) = Pin (InnerPin 0) \<and> children (chain_heap ! 20) = []
   \<and> map_of (children (chain_heap ! 0)) (Cable 1) = Some 4
   \<and> parent (chain_heap ! 4) = Some 0 \<and> item (chain_heap ! 4) = Cable 1"
proof -
  have z: "(0::nat) \<le> 0" "(0::nat) \<le> 1" "(0::nat) \<le> 3" "(0::nat) \<le> 18" "(0::nat) \<le> 20"
    by simp_all
  have l: "0 < length chain_heap" "1 < length chain_heap" "3 < length chain_heap"
    "18 < length chain_heap" "20 < length chain_heap"
    by (simp_all add: chain_heap_def)
  have i0: "item (chain_heap ! 0) = Instance 0" by (simp add: chain_heap_def)
  have i1: "item (chain_heap ! 1) = Port 0" by (simp add: chain_heap_def)
  have i3: "item (chain_heap ! 3) = Cable 0" by (simp add: chain_heap_def)
  have i18: "item (chain_heap ! 18) = Wire 0" by (simp add: chain_heap_def)
  have i20: "item (chain_heap ! 20) = Pin (InnerPin 0)" by (simp add: chain_heap_def)
  have m: "map_of (children (chain_heap ! 0)) (Cable 1) = Some 4" by (simp add: chain_heap_def)
  note t0 = generate_nodes_children[OF gen_chain z(1) l(1)]
  note t1 = generate_nodes_children[OF gen_chain z(2) l(2)]
  note t3 = generate_nodes_children[OF gen_chain z(3) l(3)]
  note t18 = generate_nodes_children[OF gen_chain z(4) l(4)]
  note t20 = generate_nodes_children[OF gen_chain z(5) l(5)]
  note a = t0[THEN conjunct1, THEN spec, THEN mp, OF i0]
  note b = t1[THEN conjunct2, THEN conjunct1, THEN spec, THEN mp, OF i1]
  note c = t3[THEN conjunct2, THEN conjunct2, THEN conjunct1, THEN spec, THEN mp, OF i3]
  note d = t18[THEN conjunct2, THEN conjunct2, THEN conjunct2, THEN conjunct1, THEN spec, THEN mp, OF i18]
  note e = t20[THEN conjunct2, THEN conjunct2, THEN conjunct2, THEN conjunct2, THEN conjunct1,
      THEN spec, THEN mp, OF i20]
  note f = t0[THEN conjunct2, THEN conjunct2, THEN conjunct2, THEN conjunct2, THEN conjunct2,
      THEN spec, THEN spec, THEN mp, OF m]
  show ?thesis
    by (intro conjI gen_chain i0 a i1 b i3 c i18 d i20 e m f[THEN conjunct2, THEN conjunct1]
        f[THEN conjunct2, THEN conjunct2])
qed

text \<open>
  Claim C5 as stated fails for leaf instances: the node of the leaf instance \<open>A\<close> of the
  scenario has a child for each port of its definition. The seed step of
  \<open>get_downstream_nodes\<close> (line 154) reads them.
\<close>

theorem leaf_instance_node_has_children:
  "generate_nodes 30 chain [] = Some (chain_heap, 0)
   \<and> item (chain_heap ! 6) = Instance 1
   \<and> definition_is_leaf chain (instance_reference chain 1)
   \<and> children (chain_heap ! 6) = [(Port 2, 12), (Port 3, 13)]"
proof -
  have "item (chain_heap ! 6) = Instance 1" by (simp add: chain_heap_def)
  moreover have "definition_is_leaf chain (instance_reference chain 1)" by (simp add: chain_def)
  moreover have "children (chain_heap ! 6) = [(Port 2, 12), (Port 3, 13)]"
    by (simp add: chain_heap_def)
  ultimately show ?thesis using gen_chain by (intro conjI)
qed

subsection \<open>get_downstream_nodes ends\<close>

lemma child_region:
  assumes "kids_ok root h" "root \<le> a" "a < length h" "child h a e = Inr c"
  shows "a < c \<and> c < length h \<and> root \<le> c \<and> parent (h ! c) = Some a \<and> item (h ! c) = e"
proof -
  from assms(4) have "map_of (children (h ! a)) e = Some c"
    by (simp add: child_def split: option.splits)
  then have "(e, c) \<in> set (children (h ! a))" by (rule map_of_SomeD)
  with assms(1-3) have "a < c \<and> c < length h \<and> parent (h ! c) = Some a \<and> item (h ! c) = e"
    unfolding kids_ok_def by blast
  with assms(2) show ?thesis by simp
qed

lemma wire_node_of_region:
  assumes "kids_ok root h" "root \<le> i" "i < length h" "wire_node_of nl h (Some i) w = Inr wn"
  shows "root \<le> wn \<and> wn < length h \<and> item (h ! wn) = Wire w \<and> wire_rank h wn = length h - i
         \<and> (\<exists>cn. parent (h ! wn) = Some cn \<and> parent (h ! cn) = Some i)"
proof -
  from assms(4) obtain cn where cn: "child h i (Cable (wire_cable nl w)) = Inr cn"
    and wn: "child h cn (Wire w) = Inr wn"
    by (auto simp: wire_node_of_def child_opt_def ebind_Inr_iff)
  from child_region[OF assms(1-3) cn]
  have c: "cn < length h" "root \<le> cn" "parent (h ! cn) = Some i" by simp_all
  from child_region[OF assms(1) c(2,1) wn]
  have w: "wn < length h" "root \<le> wn" "parent (h ! wn) = Some cn" "item (h ! wn) = Wire w"
    by simp_all
  from c w show ?thesis by (simp add: wire_rank_def)
qed

lemma progress_refl: "progress h root k s s"
  by (simp add: progress_def)

lemma card_found_mono:
  "A \<subseteq> B \<Longrightarrow> card ({..<n::nat} - B) \<le> card ({..<n} - A)"
  by (intro card_mono) auto

lemma card_found_less:
  "A \<subseteq> B \<Longrightarrow> x \<in> B \<Longrightarrow> x \<notin> A \<Longrightarrow> x < n \<Longrightarrow> card ({..<n::nat} - B) < card ({..<n} - A)"
  by (intro psubset_card_mono) auto

lemma progress_trans:
  assumes "progress h root k s s1" "progress h root k s1 s2"
  shows "progress h root k s s2"
proof -
  from assms(1) obtain p1 where 1: "found_pin_nodes s \<subseteq> found_pin_nodes s1"
    "search_stack s1 = p1 @ search_stack s" "\<forall>x \<in> set p1. root \<le> x \<and> x < length h"
    "card ({..<length h} - found_pin_nodes s1) < card ({..<length h} - found_pin_nodes s)
       \<or> (\<forall>x \<in> set p1. wire_rank h x < k)"
    unfolding progress_def by blast
  from assms(2) obtain p2 where 2: "found_pin_nodes s1 \<subseteq> found_pin_nodes s2"
    "search_stack s2 = p2 @ search_stack s1" "\<forall>x \<in> set p2. root \<le> x \<and> x < length h"
    "card ({..<length h} - found_pin_nodes s2) < card ({..<length h} - found_pin_nodes s1)
       \<or> (\<forall>x \<in> set p2. wire_rank h x < k)"
    unfolding progress_def by blast
  note m1 = card_found_mono[OF 1(1), of "length h"]
  note m2 = card_found_mono[OF 2(1), of "length h"]
  have "card ({..<length h} - found_pin_nodes s2) < card ({..<length h} - found_pin_nodes s)
       \<or> (\<forall>x \<in> set (p2 @ p1). wire_rank h x < k)"
    using 1(4) 2(4) m1 m2 by auto
  moreover have "search_stack s2 = (p2 @ p1) @ search_stack s" using 1(2) 2(2) by simp
  moreover have "\<forall>x \<in> set (p2 @ p1). root \<le> x \<and> x < length h" using 1(3) 2(3) by auto
  moreover have "found_pin_nodes s \<subseteq> found_pin_nodes s2" using 1(1) 2(1) by blast
  ultimately show ?thesis unfolding progress_def by blast
qed

lemma for_each_progress:
  assumes step: "\<And>s x s'. body s x = Inr s' \<Longrightarrow> progress h root k s s'"
  shows "for_each body xs s = Inr s' \<Longrightarrow> progress h root k s s'"
proof (induction xs arbitrary: s)
  case Nil
  then show ?case by (simp add: progress_refl)
next
  case (Cons x xs)
  from Cons.prems obtain s1 where s1: "body s x = Inr s1" and rest: "for_each body xs s1 = Inr s'"
    by (auto split: sum.splits)
  from progress_trans[OF step[OF s1] Cons.IH[OF rest]] show ?case .
qed

lemma push_wire_facts:
  assumes "kids_ok root h" "root \<le> i" "i < length h" "push_wire nl h (Some i) wo s = Inr s'"
  shows "found_pin_nodes s' = found_pin_nodes s \<and> downstream_nodes s' = downstream_nodes s
         \<and> (\<exists>pushed. search_stack s' = pushed @ search_stack s
               \<and> (\<forall>x \<in> set pushed. root \<le> x \<and> x < length h \<and> wire_rank h x = length h - i))"
proof (cases wo)
  case None
  with assms(4) show ?thesis by (simp add: push_wire_def)
next
  case (Some w)
  with assms(4) obtain wn where wn: "wire_node_of nl h (Some i) w = Inr wn"
    and s': "s' = s\<lparr>search_stack := wn # search_stack s\<rparr>"
    by (auto simp: push_wire_def ebind_Inr_iff)
  from wire_node_of_region[OF assms(1-3) wn] s' show ?thesis
    by (intro conjI exI[of _ "[wn]"]) simp_all
qed

lemma parent_region:
  assumes "parents_ok root h" "root \<le> a" "a < length h" "parent (h ! a) = Some p"
  shows "root \<le> p \<and> p < a"
proof -
  from assms(1,4) have "a \<noteq> root" by (auto simp: parents_ok_def)
  with assms(2) have "root < a" by simp
  with assms(1,3,4) show ?thesis by (fastforce simp: parents_ok_def)
qed

lemma leave_instance_progress:
  assumes k: "kids_ok root h" and p: "parents_ok root h"
    and i: "root \<le> i" "i < length h"
    and n: "pin_node \<notin> found_pin_nodes s" "pin_node < length h"
    and v: "leave_instance nl h b i q port_node pin_node s = Inr s'"
  shows "progress h root k s s'"
proof -
  let ?s1 = "s\<lparr>found_pin_nodes := insert pin_node (found_pin_nodes s)\<rparr>"
  have less: "card ({..<length h} - insert pin_node (found_pin_nodes s))
                < card ({..<length h} - found_pin_nodes s)"
    using n by (intro card_found_less[of _ _ pin_node]) auto
  show ?thesis
  proof (cases "parent (h ! i)")
    case None
    with v have "found_pin_nodes s' = insert pin_node (found_pin_nodes s)"
      "search_stack s' = search_stack s"
      by (auto simp: leave_instance_def Let_def split: if_splits)
    with less show ?thesis by (auto simp: progress_def)
  next
    case (Some pi)
    from parent_region[OF p i Some] i have pir: "root \<le> pi" "pi < length h" by simp_all
    from v Some obtain j where
      "push_wire nl h (Some pi) (outerpin_wire nl j q) ?s1 = Inr s'"
      by (cases "item (h ! i)") (auto simp: leave_instance_def Let_def split: if_splits)
    from push_wire_facts[OF k pir this] less show ?thesis
      by (auto simp: progress_def)
  qed
qed

lemma visit_inner_pin_progress:
  assumes k: "kids_ok root h" and p: "parents_ok root h"
    and i: "root \<le> i" "i < length h"
    and v: "visit_inner_pin nl h b i s q = Inr s'"
  shows "progress h root n s s'"
proof -
  from v obtain port_node pin_node where
    pn: "child h i (Port (innerpin_port nl q)) = Inr port_node"
    and qn: "child h port_node (Pin (InnerPin q)) = Inr pin_node"
    and r: "(if pin_node \<notin> found_pin_nodes s
             then leave_instance nl h b i q port_node pin_node s else Inr s) = Inr s'"
    by (auto simp: visit_inner_pin_def ebind_Inr_iff)
  from child_region[OF k i pn] have pr: "root \<le> port_node" "port_node < length h" by simp_all
  from child_region[OF k pr qn] have qr: "pin_node < length h" by simp
  show ?thesis
  proof (cases "pin_node \<in> found_pin_nodes s")
    case True
    with r show ?thesis by (simp add: progress_refl)
  next
    case False
    with r have "leave_instance nl h b i q port_node pin_node s = Inr s'" by simp
    from leave_instance_progress[OF k p i False qr this] show ?thesis .
  qed
qed

lemma visit_outer_pin_progress:
  assumes k: "kids_ok root h"
    and i: "root \<le> i" "i < length h"
    and v: "visit_outer_pin nl h i s j q = Inr s'"
  shows "progress h root (length h - i) s s'"
proof -
  from v obtain instance_node where
    inn: "child h i (Instance j) = Inr instance_node"
    and r: "(if definition_is_leaf nl (instance_reference nl j)
             then Inr (s\<lparr>downstream_nodes := downstream_nodes s @ [instance_node]\<rparr>)
             else enter_instance nl h instance_node q s) = Inr s'"
    by (auto simp: visit_outer_pin_def ebind_Inr_iff)
  from child_region[OF k i inn]
  have ir: "root \<le> instance_node" "instance_node < length h" "i < instance_node" by simp_all
  show ?thesis
  proof (cases "definition_is_leaf nl (instance_reference nl j)")
    case True
    with r have "s' = s\<lparr>downstream_nodes := downstream_nodes s @ [instance_node]\<rparr>" by simp
    then show ?thesis by (simp add: progress_def)
  next
    case False
    with r obtain pin_node where
      "push_wire nl h (Some instance_node) (innerpin_wire nl q)
         (s\<lparr>found_pin_nodes := insert pin_node (found_pin_nodes s)\<rparr>) = Inr s'"
      by (auto simp: enter_instance_def ebind_Inr_iff)
    from push_wire_facts[OF k ir(1,2) this] obtain pushed where
      f: "found_pin_nodes s' = insert pin_node (found_pin_nodes s)"
      and st: "search_stack s' = pushed @ search_stack s"
      and pu: "\<forall>x \<in> set pushed. root \<le> x \<and> x < length h \<and> wire_rank h x = length h - instance_node"
      by auto
    from pu ir i have "\<forall>x \<in> set pushed. wire_rank h x < length h - i" by auto
    with f st pu show ?thesis unfolding progress_def by auto
  qed
qed

lemma visit_pin_progress:
  assumes k: "kids_ok root h" and p: "parents_ok root h"
    and i: "root \<le> i" "i < length h"
    and v: "visit_pin nl h b (Some i) s pin = Inr s'"
  shows "progress h root (length h - i) s s'"
proof (cases pin)
  case (InnerPin q)
  with v have "visit_inner_pin nl h b i s q = Inr s'" by (simp add: visit_pin_def)
  from visit_inner_pin_progress[OF k p i this] show ?thesis .
next
  case (OuterPin j q)
  with v have "visit_outer_pin nl h i s j q = Inr s'" by (simp add: visit_pin_def)
  from visit_outer_pin_progress[OF k i this] show ?thesis .
qed

lemma visit_pin_None: "visit_pin nl h b None s pin = Inl AttributeError"
  by (simp add: visit_pin_def)

lemma visit_wire_progress:
  assumes k: "kids_ok root h" and p: "parents_ok root h"
    and w: "root \<le> wn" "wn < length h"
    and v: "visit_wire nl h b wn s = Inr s'"
  shows "progress h root (wire_rank h wn) s s'"
proof -
  from v obtain cn wire where cn: "parent (h ! wn) = Some cn" and
    fe: "for_each (visit_pin nl h b (parent (h ! cn))) (wire_pins nl wire) s = Inr s'"
    by (cases "parent (h ! wn)"; cases "item (h ! wn)") (auto simp: visit_wire_def)
  from parent_region[OF p w cn] w have cr: "root \<le> cn" "cn < length h" by simp_all
  show ?thesis
  proof (cases "parent (h ! cn)")
    case None
    have "s' = s" using fe None
      by (cases "wire_pins nl wire") (simp_all add: visit_pin_None)
    then show ?thesis by (simp add: progress_refl)
  next
    case (Some i)
    from parent_region[OF p cr Some] cr have ir: "root \<le> i" "i < length h" by simp_all
    have rk: "wire_rank h wn = length h - i" using cn Some by (simp add: wire_rank_def)
    have "progress h root (length h - i) s s'"
    proof (rule for_each_progress[where body="visit_pin nl h b (Some i)"])
      show "for_each (visit_pin nl h b (Some i)) (wire_pins nl wire) s = Inr s'"
        using fe Some by simp
    next
      fix s x s' assume "visit_pin nl h b (Some i) s x = Inr s'"
      from visit_pin_progress[OF k p ir this] show "progress h root (length h - i) s s'" .
    qed
    then show ?thesis by (simp add: rk)
  qed
qed

lemma wf_search_order: "wf (search_order h)"
  unfolding search_order_def
  by (intro wf_inv_image wf_lex_prod wf_less_than wf_mult)

lemma progress_decreases:
  assumes st: "search_stack s = wn # rest"
    and pr: "progress h root (wire_rank h wn) (s\<lparr>search_stack := rest\<rparr>) s'"
  shows "(s', s) \<in> search_order h"
proof -
  from pr obtain pushed where f: "found_pin_nodes s \<subseteq> found_pin_nodes s'"
    and s': "search_stack s' = pushed @ rest"
    and d: "card ({..<length h} - found_pin_nodes s') < card ({..<length h} - found_pin_nodes s)
            \<or> (\<forall>x \<in> set pushed. wire_rank h x < wire_rank h wn)"
    unfolding progress_def by auto
  show ?thesis
  proof (cases "card ({..<length h} - found_pin_nodes s') < card ({..<length h} - found_pin_nodes s)")
    case True
    then show ?thesis by (simp add: search_order_def)
  next
    case False
    with d have r: "\<forall>x \<in> set pushed. wire_rank h x < wire_rank h wn" by simp
    from False card_found_mono[OF f, of "length h"]
    have eq: "card ({..<length h} - found_pin_nodes s') = card ({..<length h} - found_pin_nodes s)"
      by simp
    have "(mset (map (wire_rank h) rest) + mset (map (wire_rank h) pushed),
           mset (map (wire_rank h) rest) + {#wire_rank h wn#}) \<in> mult less_than"
      using r by (intro one_step_implies_mult) auto
    then have "(mset (map (wire_rank h) (search_stack s')), mset (map (wire_rank h) (search_stack s)))
                 \<in> mult less_than"
      by (simp add: s' st add.commute)
    with eq show ?thesis by (simp add: search_order_def)
  qed
qed

lemma search_loop_Nil:
  "search_stack s = [] \<Longrightarrow> search_loop fuel nl h b s = Some (Inr (downstream_nodes s))"
  by (subst search_loop.simps) simp

lemma search_loop_Suc:
  "search_stack s = wn # rest \<Longrightarrow>
   search_loop (Suc fuel) nl h b s =
     (case visit_wire nl h b wn (s\<lparr>search_stack := rest\<rparr>) of
        Inl e \<Rightarrow> Some (Inl e)
      | Inr s' \<Rightarrow> search_loop fuel nl h b s')"
  by (subst search_loop.simps) simp

lemma search_loop_terminates:
  assumes k: "kids_ok root h" and p: "parents_ok root h"
  shows "\<forall>x \<in> set (search_stack s). root \<le> x \<and> x < length h \<Longrightarrow>
         \<exists>fuel r. \<forall>fuel' \<ge> fuel. search_loop fuel' nl h b s = Some r"
proof (induction s rule: wf_induct_rule[OF wf_search_order[of h]])
  case (1 s)
  show ?case
  proof (cases "search_stack s")
    case Nil
    then show ?thesis by (auto simp: search_loop_Nil)
  next
    case (Cons wn rest)
    with "1.prems" have w: "root \<le> wn" "wn < length h" by simp_all
    show ?thesis
    proof (cases "visit_wire nl h b wn (s\<lparr>search_stack := rest\<rparr>)")
      case (Inl e)
      have "search_loop fuel' nl h b s = Some (Inl e)" if "1 \<le> fuel'" for fuel'
      proof -
        from that obtain f where "fuel' = Suc f" by (cases fuel') auto
        with Cons Inl show ?thesis by (simp add: search_loop_Suc)
      qed
      then show ?thesis by blast
    next
      case (Inr s')
      from visit_wire_progress[OF k p w Inr]
      have pr: "progress h root (wire_rank h wn) (s\<lparr>search_stack := rest\<rparr>) s'" .
      from progress_decreases[OF Cons pr] have less: "(s', s) \<in> search_order h" .
      from pr obtain pushed where "search_stack s' = pushed @ rest"
        "\<forall>x \<in> set pushed. root \<le> x \<and> x < length h"
        unfolding progress_def by auto
      with "1.prems" Cons have "\<forall>x \<in> set (search_stack s'). root \<le> x \<and> x < length h" by auto
      from "1.IH"[OF less this] obtain fuel r where
        fr: "\<forall>fuel' \<ge> fuel. search_loop fuel' nl h b s' = Some r" by blast
      have "search_loop fuel' nl h b s = Some r" if "Suc fuel \<le> fuel'" for fuel'
      proof -
        from that obtain f where f: "fuel' = Suc f" "fuel \<le> f" by (cases fuel') auto
        with Cons Inr fr show ?thesis by (simp add: search_loop_Suc)
      qed
      then show ?thesis by blast
    qed
  qed
qed

lemma push_wire_opt_region:
  assumes k: "kids_ok root h" and po: "\<forall>i. po = Some i \<longrightarrow> root \<le> i \<and> i < length h"
    and st: "\<forall>x \<in> set (search_stack s). root \<le> x \<and> x < length h"
    and v: "push_wire nl h po (Some w) s = Inr s'"
  shows "\<forall>x \<in> set (search_stack s'). root \<le> x \<and> x < length h"
proof (cases po)
  case None
  with v show ?thesis by (simp add: push_wire_def wire_node_of_def child_opt_def ebind_def)
next
  case (Some i)
  with po have "root \<le> i" "i < length h" by simp_all
  from push_wire_facts[OF k this v[unfolded Some]] st show ?thesis by auto
qed

lemma seed_instance_pin_region:
  assumes k: "kids_ok root h" and po: "\<forall>i. parent (h ! node) = Some i \<longrightarrow> root \<le> i \<and> i < length h"
    and st: "\<forall>x \<in> set (search_stack s). root \<le> x \<and> x < length h"
    and v: "seed_instance_pin nl h node j s q = Inr s'"
  shows "\<forall>x \<in> set (search_stack s'). root \<le> x \<and> x < length h"
proof (cases "outerpin_wire nl j q")
  case None
  with v st show ?thesis by (simp add: seed_instance_pin_def)
next
  case (Some w)
  show ?thesis
  proof (cases "port_direction nl (innerpin_port nl q) \<in> {OUT, INOUT}")
    case False
    with v st Some show ?thesis by (simp add: seed_instance_pin_def)
  next
    case True
    with v Some obtain pin_node where
      "push_wire nl h (parent (h ! node)) (Some w)
         (s\<lparr>found_pin_nodes := insert pin_node (found_pin_nodes s)\<rparr>) = Inr s'"
      by (auto simp: seed_instance_pin_def ebind_Inr_iff)
    from push_wire_opt_region[OF k po _ this] st show ?thesis by simp
  qed
qed

lemma seed_port_pin_region:
  assumes k: "kids_ok root h" and po: "\<forall>i. parent (h ! node) = Some i \<longrightarrow> root \<le> i \<and> i < length h"
    and st: "\<forall>x \<in> set (search_stack s). root \<le> x \<and> x < length h"
    and v: "seed_port_pin nl h node s q = Inr s'"
  shows "\<forall>x \<in> set (search_stack s'). root \<le> x \<and> x < length h"
proof (cases "innerpin_wire nl q")
  case None
  with v st show ?thesis by (simp add: seed_port_pin_def)
next
  case (Some w)
  with v obtain pin_node where
    "push_wire nl h (parent (h ! node)) (Some w)
       (s\<lparr>found_pin_nodes := insert pin_node (found_pin_nodes s)\<rparr>) = Inr s'"
    by (auto simp: seed_port_pin_def ebind_Inr_iff)
  from push_wire_opt_region[OF k po _ this] st show ?thesis by simp
qed

lemma for_each_invariant:
  assumes step: "\<And>s x s'. P s \<Longrightarrow> body s x = Inr s' \<Longrightarrow> P s'"
  shows "for_each body xs s = Inr s' \<Longrightarrow> P s \<Longrightarrow> P s'"
proof (induction xs arbitrary: s)
  case Nil
  then show ?case by simp
next
  case (Cons x xs)
  from Cons.prems(1) obtain s1 where s1: "body s x = Inr s1" and rest: "for_each body xs s1 = Inr s'"
    by (auto split: sum.splits)
  from Cons.IH[OF rest step[OF Cons.prems(2) s1]] show ?case .
qed

lemma seed_step_region:
  assumes k: "kids_ok root h" and p: "parents_ok root h"
    and n: "root \<le> node" "node < length h"
    and v: "seed_step nl h node b = Inr s"
  shows "\<forall>x \<in> set (search_stack s). root \<le> x \<and> x < length h"
proof -
  have po: "\<forall>i. parent (h ! node) = Some i \<longrightarrow> root \<le> i \<and> i < length h"
    using parent_region[OF p n] n by auto
  have e: "\<forall>x \<in> set (search_stack empty_search). root \<le> x \<and> x < length h"
    by (simp add: empty_search_def)
  show ?thesis
  proof (cases "item (h ! node)")
    case (Instance j)
    with v have "for_each (seed_instance_pin nl h node j) (instance_pins nl j) empty_search = Inr s"
      by (simp add: seed_step_def)
    from for_each_invariant[where P="\<lambda>s. \<forall>x \<in> set (search_stack s). root \<le> x \<and> x < length h",
        OF _ this e]
    show ?thesis using seed_instance_pin_region[OF k po] by blast
  next
    case (Port q)
    show ?thesis
    proof (cases "b \<and> port_direction nl q \<in> {IN, INOUT}")
      case True
      with v Port have "for_each (seed_port_pin nl h node) (port_pins nl q) empty_search = Inr s"
        by (simp add: seed_step_def)
      from for_each_invariant[where P="\<lambda>s. \<forall>x \<in> set (search_stack s). root \<le> x \<and> x < length h",
          OF _ this e]
      show ?thesis using seed_port_pin_region[OF k po] by blast
    next
      case False
      with v Port have "s = empty_search" by (auto simp: seed_step_def split: if_splits)
      with e show ?thesis by simp
    qed
  next
    case (Cable c)
    with v e show ?thesis by (simp add: seed_step_def)
  next
    case (Wire w)
    with v e show ?thesis by (simp add: seed_step_def)
  next
    case (Pin q)
    with v e show ?thesis by (simp add: seed_step_def)
  qed
qed

lemma get_downstream_nodes_total:
  assumes k: "kids_ok root h" and p: "parents_ok root h"
    and n: "root \<le> node" "node < length h"
  shows "\<exists>fuel r. \<forall>fuel' \<ge> fuel. get_downstream_nodes fuel' nl h node b = Some r"
proof (cases "seed_step nl h node b")
  case (Inl e)
  then show ?thesis by (simp add: get_downstream_nodes_def)
next
  case (Inr s)
  from search_loop_terminates[OF k p seed_step_region[OF k p n Inr], of nl b] Inr
  show ?thesis by (simp add: get_downstream_nodes_def)
qed

lemma gen_ring: "generate_nodes 30 ring [] = Some (chain_heap, 0)"
  by code_simp

text \<open>
  Claim C3. For every node of the tree that \<open>generate_nodes\<close> has built, whatever the wiring
  of the netlist (feedback among leaf instances included), \<open>get_downstream_nodes\<close> ends: with
  enough fuel the loop reaches the empty stack or an exception, and more fuel gives the same
  result. The pin nodes not yet found never increase, and an iteration that finds none
  replaces the popped wire node by wire nodes deeper in the hierarchy.
\<close>

theorem get_downstream_nodes_terminates:
  assumes "generate_nodes fuel0 nl h0 = Some (h, root)" and "root \<le> node" and "node < length h"
  shows "\<exists>fuel r. \<forall>fuel' \<ge> fuel. get_downstream_nodes fuel' nl h node include_top_ports = Some r"
proof -
  from generate_nodes_hierarchy(2)[OF assms(1)]
  have "kids_ok root h" "parents_ok root h" by (simp_all add: hierarchy_def)
  from get_downstream_nodes_total[OF this assms(2,3)] show ?thesis .
qed

theorem get_downstream_nodes_terminates_witness:
  "generate_nodes 30 ring [] = Some (chain_heap, 0)
   \<and> (\<exists>fuel r. \<forall>fuel' \<ge> fuel. get_downstream_nodes fuel' ring chain_heap 6 True = Some r)
   \<and> get_downstream_nodes 30 ring chain_heap 6 True = Some (Inr [6, 7])
   \<and> get_downstream_nodes 30 ring chain_heap 7 True = Some (Inr [7, 6, 2])"
proof -
  have l: "(0::nat) \<le> 6" "6 < length chain_heap" by (simp_all add: chain_heap_def)
  note t = get_downstream_nodes_terminates[OF gen_ring l, of True]
  have a: "get_downstream_nodes 30 ring chain_heap 6 True = Some (Inr [6, 7])" by code_simp
  have b: "get_downstream_nodes 30 ring chain_heap 7 True = Some (Inr [7, 6, 2])" by code_simp
  show ?thesis by (intro conjI gen_ring t a b)
qed

subsection \<open>get_leaf_instance_nodes collects the leaf instance nodes of the tree\<close>

lemma kid_region:
  assumes "kids_ok root h" "root \<le> p" "p < length h" "(p, c) \<in> kid h"
  shows "p < c \<and> c < length h \<and> root \<le> c \<and> parent (h ! c) = Some p
         \<and> (item (h ! c), c) \<in> set (children (h ! p))"
proof -
  from assms(4) obtain e where e: "(e, c) \<in> set (children (h ! p))" by (auto simp: kid_def)
  with assms(1-3) have "p < c \<and> c < length h \<and> parent (h ! c) = Some p \<and> item (h ! c) = e"
    unfolding kids_ok_def by blast
  with e assms(2) show ?thesis by auto
qed

lemma kid_star_region:
  assumes k: "kids_ok root h"
  shows "(p, c) \<in> (kid h)\<^sup>* \<Longrightarrow> root \<le> p \<Longrightarrow> p < length h \<Longrightarrow> root \<le> c \<and> c < length h"
proof (induction rule: rtrancl_induct)
  case base
  then show ?case by simp
next
  case (step y z)
  from step.IH[OF step.prems] kid_region[OF k _ _ step.hyps(2)] show ?case by simp
qed

lemma kid_item:
  assumes k: "kids_ok root h" and e: "expanded nl root h {}"
    and p: "root \<le> p" "p < length h" and c: "(p, c) \<in> kid h"
  shows "item (h ! c) \<in> set (child_elements nl (item (h ! p)))"
proof -
  from kid_region[OF k p c] have "(item (h ! c), c) \<in> set (children (h ! p))" by simp
  then have "item (h ! c) \<in> fst ` set (children (h ! p))" by force
  with e p show ?thesis by (simp add: expanded_def)
qed

lemma no_instance_below:
  assumes k: "kids_ok root h" and e: "expanded nl root h {}"
  shows "(x, a) \<in> (kid h)\<^sup>* \<Longrightarrow> root \<le> x \<Longrightarrow> x < length h \<Longrightarrow> \<not> is_Instance (item (h ! x)) \<Longrightarrow>
         \<not> is_Instance (item (h ! a))"
proof (induction rule: rtrancl_induct)
  case base
  then show ?case by simp
next
  case (step y z)
  from step.IH[OF step.prems] have y: "\<not> is_Instance (item (h ! y))" .
  from kid_star_region[OF k step.hyps(1) step.prems(1,2)] have yr: "root \<le> y" "y < length h"
    by simp_all
  from kid_item[OF k e yr step.hyps(2)] y show ?case
    by (cases "item (h ! y)") auto
qed

lemma leaf_node_below:
  assumes k: "kids_ok root h" and e: "expanded nl root h {}" and lc: "leaves_childless nl"
    and x: "root \<le> x" "x < length h" "leaf_node nl h x"
    and a: "(x, a) \<in> (kid h)\<^sup>*" "is_Instance (item (h ! a))"
  shows "a = x"
proof (rule ccontr)
  assume "a \<noteq> x"
  with a(1) obtain c where c: "(x, c) \<in> kid h" "(c, a) \<in> (kid h)\<^sup>*"
    by (auto elim: converse_rtranclE)
  from x(3) obtain i where i: "item (h ! x) = Instance i" "definition_is_leaf nl (instance_reference nl i)"
    by (auto simp: leaf_node_def)
  with lc have "definition_children nl (instance_reference nl i) = []"
    by (simp add: leaves_childless_def)
  with kid_item[OF k e x(1,2) c(1)] i have "\<not> is_Instance (item (h ! c))" by auto
  moreover from kid_region[OF k x(1,2) c(1)] have "root \<le> c" "c < length h" by simp_all
  ultimately have "\<not> is_Instance (item (h ! a))"
    using no_instance_below[OF k e c(2)] by simp
  with a(2) show False by simp
qed

lemma leaf_node_is_Instance: "leaf_node nl h a \<Longrightarrow> is_Instance (item (h ! a))"
  by (auto simp: leaf_node_def)

lemma leaves_below_Cons:
  "leaves_below nl h (x # st) = {a. leaf_node nl h a \<and> (x, a) \<in> (kid h)\<^sup>*} \<union> leaves_below nl h st"
  by (auto simp: leaves_below_def)

lemma leaves_below_append:
  "leaves_below nl h (xs @ st) = leaves_below nl h xs \<union> leaves_below nl h st"
  by (auto simp: leaves_below_def)

lemma leaves_below_kids:
  assumes "\<not> leaf_node nl h x"
  shows "{a. leaf_node nl h a \<and> (x, a) \<in> (kid h)\<^sup>*}
         = leaves_below nl h (rev (map snd (children (h ! x))))"
proof -
  have "(x, a) \<in> (kid h)\<^sup>* \<longleftrightarrow> (\<exists>c \<in> snd ` set (children (h ! x)). (c, a) \<in> (kid h)\<^sup>*)"
    if "leaf_node nl h a" for a
  proof
    assume "(x, a) \<in> (kid h)\<^sup>*"
    moreover from that assms have "a \<noteq> x" by auto
    ultimately obtain c where "(x, c) \<in> kid h" "(c, a) \<in> (kid h)\<^sup>*"
      by (auto elim: converse_rtranclE)
    then show "\<exists>c \<in> snd ` set (children (h ! x)). (c, a) \<in> (kid h)\<^sup>*"
      by (auto simp: kid_def)
  next
    assume "\<exists>c \<in> snd ` set (children (h ! x)). (c, a) \<in> (kid h)\<^sup>*"
    then obtain c where "(x, c) \<in> kid h" "(c, a) \<in> (kid h)\<^sup>*" by (auto simp: kid_def)
    then show "(x, a) \<in> (kid h)\<^sup>*" by (rule converse_rtrancl_into_rtrancl)
  qed
  then show ?thesis by (auto simp: leaves_below_def)
qed

lemma leaf_loop_collects:
  assumes k: "kids_ok root h" and e: "expanded nl root h {}" and lc: "leaves_childless nl"
  shows "leaf_loop fuel nl h st acc = Some res \<Longrightarrow> \<forall>x \<in> set st. root \<le> x \<and> x < length h \<Longrightarrow>
         set res = set acc \<union> leaves_below nl h st"
proof (induction fuel arbitrary: st acc)
  case 0
  then show ?case by (cases st) (simp_all add: leaves_below_def)
next
  case (Suc fuel)
  show ?case
  proof (cases st)
    case Nil
    with Suc.prems show ?thesis by (simp add: leaves_below_def)
  next
    case (Cons cur rest)
    with Suc.prems(2) have cr: "root \<le> cur" "cur < length h"
      and sr: "\<forall>x \<in> set rest. root \<le> x \<and> x < length h"
      by simp_all
    have none: "{a. leaf_node nl h a \<and> (cur, a) \<in> (kid h)\<^sup>*} = {}"
      if "\<not> is_Instance (item (h ! cur))"
      using no_instance_below[OF k e _ cr that] leaf_node_is_Instance by blast
    show ?thesis
    proof (cases "leaf_node nl h cur")
      case True
      then obtain i where i: "item (h ! cur) = Instance i"
        "definition_is_leaf nl (instance_reference nl i)"
        by (auto simp: leaf_node_def)
      with Suc.prems(1) Cons have "leaf_loop fuel nl h rest (acc @ [cur]) = Some res" by simp
      from Suc.IH[OF this sr] have r: "set res = set (acc @ [cur]) \<union> leaves_below nl h rest" .
      have "{a. leaf_node nl h a \<and> (cur, a) \<in> (kid h)\<^sup>*} = {cur}"
        using True leaf_node_below[OF k e lc cr True] leaf_node_is_Instance by blast
      with r Cons show ?thesis by (simp add: leaves_below_Cons)
    next
      case False
      show ?thesis
      proof (cases "is_Instance (item (h ! cur))")
        case True
        then obtain i where i: "item (h ! cur) = Instance i" by (cases "item (h ! cur)") auto
        with False have nleaf: "\<not> definition_is_leaf nl (instance_reference nl i)"
          by (simp add: leaf_node_def)
        with Suc.prems(1) Cons i
        have run: "leaf_loop fuel nl h (rev (map snd (children (h ! cur))) @ rest) acc = Some res"
          by simp
        have "\<forall>x \<in> set (rev (map snd (children (h ! cur))) @ rest). root \<le> x \<and> x < length h"
        proof
          fix x assume "x \<in> set (rev (map snd (children (h ! cur))) @ rest)"
          then have "(cur, x) \<in> kid h \<or> x \<in> set rest" by (auto simp: kid_def)
          with kid_region[OF k cr] sr show "root \<le> x \<and> x < length h" by auto
        qed
        from Suc.IH[OF run this] Cons
        show ?thesis
          by (simp add: leaves_below_Cons leaves_below_append leaves_below_kids[OF False] Un_assoc)
      next
        case nI: False
        with Suc.prems(1) Cons have run: "leaf_loop fuel nl h rest acc = Some res"
          by (cases "item (h ! cur)") simp_all
        from Suc.IH[OF run sr] have "set res = set acc \<union> leaves_below nl h rest" .
        then show ?thesis unfolding Cons leaves_below_Cons none[OF nI] by simp
      qed
    qed
  qed
qed

subsection \<open>The downstream nodes are selected nodes\<close>

lemma tree_nodes_region:
  assumes "kids_ok root h" "root < length h" "a \<in> tree_nodes h root"
  shows "root \<le> a \<and> a < length h"
  using kid_star_region[OF assms(1), of root a] assms(2,3) by (simp add: tree_nodes_def)

lemma tree_nodes_kid:
  "a \<in> tree_nodes h root \<Longrightarrow> child h a e = Inr c \<Longrightarrow> c \<in> tree_nodes h root"
proof -
  assume a: "a \<in> tree_nodes h root" and c: "child h a e = Inr c"
  from c have "map_of (children (h ! a)) e = Some c" by (simp add: child_def split: option.splits)
  then have "(e, c) \<in> set (children (h ! a))" by (rule map_of_SomeD)
  then have "(a, c) \<in> kid h" by (force simp: kid_def)
  with a show ?thesis by (auto simp: tree_nodes_def)
qed

lemma tree_nodes_parent:
  assumes k: "kids_ok root h" and p: "parents_ok root h"
    and a: "a \<in> tree_nodes h root" "parent (h ! a) = Some q"
  shows "q \<in> tree_nodes h root"
proof -
  from p a(2) have "a \<noteq> root" by (auto simp: parents_ok_def)
  with a(1) obtain y where y: "(root, y) \<in> (kid h)\<^sup>*" "(y, a) \<in> kid h"
    by (auto simp: tree_nodes_def elim: rtranclE)
  from p have r: "root < length h" by (simp add: parents_ok_def)
  from kid_star_region[OF k y(1)] r have "root \<le> y" "y < length h" by simp_all
  from kid_region[OF k this y(2)] a(2) have "q = y" by simp
  with y(1) show ?thesis by (simp add: tree_nodes_def)
qed

lemma push_wire_under:
  assumes k: "kids_ok root h" and r: "root < length h" and i: "i \<in> tree_nodes h root"
    and s: "search_ok nl h root b s"
    and v: "push_wire nl h (Some i) wo s = Inr s'"
  shows "search_ok nl h root b s'"
proof (cases wo)
  case None
  with v s show ?thesis by (simp add: push_wire_def)
next
  case (Some w)
  with v obtain wn where wn: "wire_node_of nl h (Some i) w = Inr wn"
    and s': "s' = s\<lparr>search_stack := wn # search_stack s\<rparr>"
    by (auto simp: push_wire_def ebind_Inr_iff)
  from tree_nodes_region[OF k r i] have "root \<le> i" "i < length h" by simp_all
  from wire_node_of_region[OF k this wn] i have "under_tree h root wn"
    by (auto simp: under_tree_def)
  with s s' show ?thesis by (simp add: search_ok_def)
qed

lemma search_ok_found:
  "search_ok nl h root b (s\<lparr>found_pin_nodes := f\<rparr>) = search_ok nl h root b s"
  by (simp add: search_ok_def)

lemma top_port_node:
  assumes "child h root (Port q) = Inr c"
  shows "c \<in> set (get_top_port_nodes h root)"
proof -
  from assms have "map_of (children (h ! root)) (Port q) = Some c"
    by (simp add: child_def split: option.splits)
  then have "(Port q, c) \<in> set (children (h ! root))" by (rule map_of_SomeD)
  then show ?thesis by (force simp: get_top_port_nodes_def)
qed

lemma leave_instance_ok:
  assumes k: "kids_ok root h" and p: "parents_ok root h"
    and i: "i \<in> tree_nodes h root" and s: "search_ok nl h root b s"
    and pn: "child h i (Port (innerpin_port nl q)) = Inr port_node"
    and v: "leave_instance nl h b i q port_node pin_node s = Inr s'"
  shows "search_ok nl h root b s'"
proof -
  from p have r: "root < length h" by (simp add: parents_ok_def)
  let ?s1 = "s\<lparr>found_pin_nodes := insert pin_node (found_pin_nodes s)\<rparr>"
  have s1: "search_ok nl h root b ?s1" using s by (simp add: search_ok_found)
  show ?thesis
  proof (cases "parent (h ! i)")
    case None
    from tree_nodes_region[OF k r i] have ir: "root \<le> i" "i < length h" by simp_all
    have "i = root"
    proof (rule ccontr)
      assume "i \<noteq> root"
      with ir have "root < i \<and> i < length h" by simp
      with p obtain q where "parent (h ! i) = Some q" unfolding parents_ok_def by blast
      with None show False by simp
    qed
    with pn have tp: "port_node \<in> set (get_top_port_nodes h root)" by (auto intro: top_port_node)
    show ?thesis
    proof (cases b)
      case True
      with v None have "s' = ?s1\<lparr>downstream_nodes := downstream_nodes ?s1 @ [port_node]\<rparr>"
        by (simp add: leave_instance_def Let_def)
      with s tp True show ?thesis by (simp add: search_ok_def selected_def)
    next
      case False
      with v None have "s' = ?s1" by (simp add: leave_instance_def Let_def)
      with s1 show ?thesis by simp
    qed
  next
    case (Some pi)
    from tree_nodes_parent[OF k p i Some] have pt: "pi \<in> tree_nodes h root" .
    from v Some obtain j where "push_wire nl h (Some pi) (outerpin_wire nl j q) ?s1 = Inr s'"
      by (cases "item (h ! i)") (auto simp: leave_instance_def Let_def split: if_splits)
    from push_wire_under[OF k r pt s1 this] show ?thesis .
  qed
qed

lemma visit_pin_ok:
  assumes k: "kids_ok root h" and p: "parents_ok root h"
    and i: "i \<in> tree_nodes h root" and s: "search_ok nl h root b s"
    and v: "visit_pin nl h b (Some i) s pin = Inr s'"
  shows "search_ok nl h root b s'"
proof (cases pin)
  case (InnerPin q)
  with v obtain port_node pin_node where
    pn: "child h i (Port (innerpin_port nl q)) = Inr port_node"
    and r: "(if pin_node \<notin> found_pin_nodes s
             then leave_instance nl h b i q port_node pin_node s else Inr s) = Inr s'"
    by (auto simp: visit_pin_def visit_inner_pin_def ebind_Inr_iff)
  show ?thesis
  proof (cases "pin_node \<in> found_pin_nodes s")
    case True
    with r s show ?thesis by simp
  next
    case False
    with r have "leave_instance nl h b i q port_node pin_node s = Inr s'" by simp
    from leave_instance_ok[OF k p i s pn this] show ?thesis .
  qed
next
  case (OuterPin j q)
  from p have rl: "root < length h" by (simp add: parents_ok_def)
  from v OuterPin obtain instance_node where
    inn: "child h i (Instance j) = Inr instance_node"
    and r: "(if definition_is_leaf nl (instance_reference nl j)
             then Inr (s\<lparr>downstream_nodes := downstream_nodes s @ [instance_node]\<rparr>)
             else enter_instance nl h instance_node q s) = Inr s'"
    by (auto simp: visit_pin_def visit_outer_pin_def ebind_Inr_iff)
  from tree_nodes_kid[OF i inn] have it: "instance_node \<in> tree_nodes h root" .
  from tree_nodes_region[OF k rl i] have ir: "root \<le> i" "i < length h" by simp_all
  from child_region[OF k ir inn] have ii: "item (h ! instance_node) = Instance j" by simp
  show ?thesis
  proof (cases "definition_is_leaf nl (instance_reference nl j)")
    case True
    with r have s': "s' = s\<lparr>downstream_nodes := downstream_nodes s @ [instance_node]\<rparr>" by simp
    from True ii have "leaf_node nl h instance_node" by (simp add: leaf_node_def)
    with it s s' show ?thesis by (simp add: search_ok_def selected_def)
  next
    case False
    with r obtain pin_node where
      "push_wire nl h (Some instance_node) (innerpin_wire nl q)
         (s\<lparr>found_pin_nodes := insert pin_node (found_pin_nodes s)\<rparr>) = Inr s'"
      by (auto simp: enter_instance_def ebind_Inr_iff)
    from push_wire_under[OF k rl it _ this] s show ?thesis by (simp add: search_ok_found)
  qed
qed

lemma visit_wire_ok:
  assumes k: "kids_ok root h" and p: "parents_ok root h"
    and w: "under_tree h root wn" and s: "search_ok nl h root b s"
    and v: "visit_wire nl h b wn s = Inr s'"
  shows "search_ok nl h root b s'"
proof -
  from w obtain cn i where c: "parent (h ! wn) = Some cn" "parent (h ! cn) = Some i"
    "i \<in> tree_nodes h root"
    by (auto simp: under_tree_def)
  from v c obtain wire where
    fe: "for_each (visit_pin nl h b (Some i)) (wire_pins nl wire) s = Inr s'"
    by (cases "item (h ! wn)") (auto simp: visit_wire_def)
  from for_each_invariant[where P="search_ok nl h root b", OF _ fe s]
  show ?thesis using visit_pin_ok[OF k p c(3)] by blast
qed

lemma search_loop_ok:
  assumes k: "kids_ok root h" and p: "parents_ok root h"
  shows "search_loop fuel nl h b s = Some (Inr ds) \<Longrightarrow> search_ok nl h root b s \<Longrightarrow>
         set ds \<subseteq> selected nl h root b"
proof (induction fuel arbitrary: s)
  case 0
  show ?case
  proof (cases "search_stack s")
    case Nil
    with 0 show ?thesis by (auto simp: search_loop_Nil search_ok_def)
  next
    case (Cons wn rest)
    then have "search_loop 0 nl h b s = None" by (subst search_loop.simps) simp
    with 0 show ?thesis by simp
  qed
next
  case (Suc fuel)
  show ?case
  proof (cases "search_stack s")
    case Nil
    with Suc.prems show ?thesis by (auto simp: search_loop_Nil search_ok_def)
  next
    case (Cons wn rest)
    with Suc.prems(2) have w: "under_tree h root wn"
      and s0: "search_ok nl h root b (s\<lparr>search_stack := rest\<rparr>)"
      by (simp_all add: search_ok_def)
    from Suc.prems(1) Cons obtain s' where
      v: "visit_wire nl h b wn (s\<lparr>search_stack := rest\<rparr>) = Inr s'"
      and run: "search_loop fuel nl h b s' = Some (Inr ds)"
      by (auto simp: search_loop_Suc split: sum.splits)
    from Suc.IH[OF run visit_wire_ok[OF k p w s0 v]] show ?thesis .
  qed
qed

lemma push_wire_None_parent: "push_wire nl h None (Some w) s = Inl AttributeError"
  by (simp add: push_wire_def wire_node_of_def child_opt_def ebind_def)

lemma seed_push_ok:
  assumes k: "kids_ok root h" and p: "parents_ok root h"
    and n: "node \<in> tree_nodes h root" and s: "search_ok nl h root b s"
    and v: "push_wire nl h (parent (h ! node)) (Some w) (s\<lparr>found_pin_nodes := f\<rparr>) = Inr s'"
  shows "search_ok nl h root b s'"
proof (cases "parent (h ! node)")
  case None
  with v show ?thesis by (simp add: push_wire_None_parent)
next
  case (Some pi)
  from p have r: "root < length h" by (simp add: parents_ok_def)
  from tree_nodes_parent[OF k p n Some] have "pi \<in> tree_nodes h root" .
  from push_wire_under[OF k r this _ v[unfolded Some]] s show ?thesis
    by (simp add: search_ok_found)
qed

lemma seed_instance_pin_ok:
  assumes k: "kids_ok root h" and p: "parents_ok root h"
    and n: "node \<in> tree_nodes h root" and s: "search_ok nl h root b s"
    and v: "seed_instance_pin nl h node j s q = Inr s'"
  shows "search_ok nl h root b s'"
proof (cases "outerpin_wire nl j q")
  case None
  with v s show ?thesis by (simp add: seed_instance_pin_def)
next
  case (Some w)
  show ?thesis
  proof (cases "port_direction nl (innerpin_port nl q) \<in> {OUT, INOUT}")
    case False
    with v s Some show ?thesis by (simp add: seed_instance_pin_def)
  next
    case True
    with v Some obtain pin_node where
      "push_wire nl h (parent (h ! node)) (Some w)
         (s\<lparr>found_pin_nodes := insert pin_node (found_pin_nodes s)\<rparr>) = Inr s'"
      by (auto simp: seed_instance_pin_def ebind_Inr_iff)
    from seed_push_ok[OF k p n s this] show ?thesis .
  qed
qed

lemma seed_port_pin_ok:
  assumes k: "kids_ok root h" and p: "parents_ok root h"
    and n: "node \<in> tree_nodes h root" and s: "search_ok nl h root b s"
    and v: "seed_port_pin nl h node s q = Inr s'"
  shows "search_ok nl h root b s'"
proof (cases "innerpin_wire nl q")
  case None
  with v s show ?thesis by (simp add: seed_port_pin_def)
next
  case (Some w)
  with v obtain pin_node where
    "push_wire nl h (parent (h ! node)) (Some w)
       (s\<lparr>found_pin_nodes := insert pin_node (found_pin_nodes s)\<rparr>) = Inr s'"
    by (auto simp: seed_port_pin_def ebind_Inr_iff)
  from seed_push_ok[OF k p n s this] show ?thesis .
qed

lemma search_ok_empty: "search_ok nl h root b empty_search"
  by (simp add: search_ok_def empty_search_def)

lemma seed_step_ok:
  assumes k: "kids_ok root h" and p: "parents_ok root h"
    and n: "node \<in> tree_nodes h root"
    and v: "seed_step nl h node b = Inr s"
  shows "search_ok nl h root b s"
proof (cases "item (h ! node)")
  case (Instance j)
  with v have "for_each (seed_instance_pin nl h node j) (instance_pins nl j) empty_search = Inr s"
    by (simp add: seed_step_def)
  from for_each_invariant[where P="search_ok nl h root b", OF _ this search_ok_empty]
  show ?thesis using seed_instance_pin_ok[OF k p n] by blast
next
  case (Port q)
  show ?thesis
  proof (cases "b \<and> port_direction nl q \<in> {IN, INOUT}")
    case True
    with v Port have "for_each (seed_port_pin nl h node) (port_pins nl q) empty_search = Inr s"
      by (simp add: seed_step_def)
    from for_each_invariant[where P="search_ok nl h root b", OF _ this search_ok_empty]
    show ?thesis using seed_port_pin_ok[OF k p n] by blast
  next
    case False
    with v Port have "s = empty_search" by (auto simp: seed_step_def split: if_splits)
    then show ?thesis by (simp add: search_ok_empty)
  qed
next
  case (Cable c)
  with v show ?thesis by (simp add: seed_step_def search_ok_empty)
next
  case (Wire w)
  with v show ?thesis by (simp add: seed_step_def search_ok_empty)
next
  case (Pin q)
  with v show ?thesis by (simp add: seed_step_def search_ok_empty)
qed

lemma get_downstream_nodes_selected:
  assumes k: "kids_ok root h" and p: "parents_ok root h"
    and n: "node \<in> tree_nodes h root"
    and v: "get_downstream_nodes fuel nl h node b = Some (Inr ds)"
  shows "set ds \<subseteq> selected nl h root b"
proof -
  from v obtain s where s: "seed_step nl h node b = Inr s"
    and run: "search_loop fuel nl h b s = Some (Inr ds)"
    by (auto simp: get_downstream_nodes_def split: sum.splits)
  from search_loop_ok[OF k p run seed_step_ok[OF k p n s]] show ?thesis .
qed

lemma top_port_nodes_facts:
  assumes k: "kids_ok root h" and r: "root < length h"
    and c: "c \<in> set (get_top_port_nodes h root)"
  shows "c \<in> tree_nodes h root \<and> is_Port (item (h ! c)) \<and> parent (h ! c) = Some root"
proof -
  from c obtain e where e: "(e, c) \<in> set (children (h ! root))" "is_Port e"
    by (auto simp: get_top_port_nodes_def)
  then have "(root, c) \<in> kid h" by (force simp: kid_def)
  then have t: "c \<in> tree_nodes h root" by (auto simp: tree_nodes_def)
  from k r e(1) have "parent (h ! c) = Some root \<and> item (h ! c) = e"
    unfolding kids_ok_def by blast
  with t e(2) show ?thesis by simp
qed

lemma get_leaf_instance_nodes_set:
  assumes k: "kids_ok root h" and e: "expanded nl root h {}" and lc: "leaves_childless nl"
    and r: "root < length h"
    and l: "get_leaf_instance_nodes fuel nl h root = Some leafs"
  shows "set leafs = {a \<in> tree_nodes h root. leaf_node nl h a}"
proof -
  from l have "leaf_loop fuel nl h [root] [] = Some leafs" by (simp add: get_leaf_instance_nodes_def)
  from leaf_loop_collects[OF k e lc this] r show ?thesis
    by (auto simp: leaves_below_def tree_nodes_def)
qed

lemma selected_tree_nodes:
  assumes k: "kids_ok root h" and r: "root < length h"
  shows "selected nl h root b \<subseteq> tree_nodes h root"
  using top_port_nodes_facts[OF k r] by (auto simp: selected_def)

subsection \<open>The graph that get_connectivity_graph assembles\<close>

lemma add_node_facts:
  "set (nodes (add_node g n)) = insert n (set (nodes g))"
  "edges (add_node g n) = edges g"
  "distinct (nodes g) \<Longrightarrow> distinct (nodes (add_node g n))"
  "n \<in> set (nodes g) \<Longrightarrow> add_node g n = g"
  by (auto simp: add_node_def)

lemma add_nodes_from_facts:
  "set (nodes (add_nodes_from g ns)) = set (nodes g) \<union> set ns
   \<and> edges (add_nodes_from g ns) = edges g
   \<and> (distinct (nodes g) \<longrightarrow> distinct (nodes (add_nodes_from g ns)))"
  unfolding add_nodes_from_def
  by (induction ns arbitrary: g) (auto simp: add_node_facts)

lemma add_edge_facts:
  assumes "u \<in> set (nodes g)" "v \<in> set (nodes g)"
  shows "nodes (add_edge u g v) = nodes g"
    and "set (edges (add_edge u g v)) = insert (u, v) (set (edges g))"
    and "distinct (edges g) \<Longrightarrow> distinct (edges (add_edge u g v))"
  using assms by (auto simp: add_edge_def add_node_facts(4) Let_def)

lemma add_edges_facts:
  "u \<in> set (nodes g) \<Longrightarrow> set ds \<subseteq> set (nodes g) \<Longrightarrow>
   nodes (foldl (add_edge u) g ds) = nodes g
   \<and> set (edges (foldl (add_edge u) g ds)) = set (edges g) \<union> {u} \<times> set ds
   \<and> (distinct (edges g) \<longrightarrow> distinct (edges (foldl (add_edge u) g ds)))"
proof (induction ds arbitrary: g)
  case Nil
  then show ?case by simp
next
  case (Cons d ds)
  from Cons.prems have d: "d \<in> set (nodes g)" by simp
  note f = add_edge_facts[OF Cons.prems(1) d]
  from Cons.prems f(1) have "u \<in> set (nodes (add_edge u g d))" "set ds \<subseteq> set (nodes (add_edge u g d))"
    by simp_all
  from Cons.IH[OF this] f show ?case by auto
qed

lemma downstream_edges_insert:
  "get_downstream_nodes fuel nl h n b = Some (Inr ds) \<Longrightarrow>
   downstream_edges fuel nl h b (insert n ns) = {n} \<times> set ds \<union> downstream_edges fuel nl h b ns"
  by (auto simp: downstream_edges_def)

lemma edges_loop_facts:
  assumes sel: "\<And>n ds. n \<in> S \<Longrightarrow> get_downstream_nodes fuel nl h n b = Some (Inr ds) \<Longrightarrow> set ds \<subseteq> S"
  shows "edges_loop fuel nl h b ns g = Some (Inr g') \<Longrightarrow> set ns \<subseteq> S \<Longrightarrow> set (nodes g) = S \<Longrightarrow>
         nodes g' = nodes g
         \<and> set (edges g') = set (edges g) \<union> downstream_edges fuel nl h b (set ns)
         \<and> (distinct (edges g) \<longrightarrow> distinct (edges g'))"
proof (induction ns arbitrary: g)
  case Nil
  then show ?case by (simp add: downstream_edges_def)
next
  case (Cons n ns)
  from Cons.prems(1) obtain ds where ds: "get_downstream_nodes fuel nl h n b = Some (Inr ds)"
    and run: "edges_loop fuel nl h b ns (foldl (add_edge n) g ds) = Some (Inr g')"
    by (auto split: option.splits sum.splits)
  from Cons.prems(2,3) have n: "n \<in> set (nodes g)" by auto
  from sel[OF _ ds] Cons.prems(2,3) have sub: "set ds \<subseteq> set (nodes g)" by auto
  note f = add_edges_facts[OF n sub]
  from Cons.prems(2,3) f have "set ns \<subseteq> S" "set (nodes (foldl (add_edge n) g ds)) = S" by simp_all
  from Cons.IH[OF run this] f downstream_edges_insert[OF ds, of "set ns"] show ?case
    by auto
qed

lemma get_connectivity_graph_Some:
  assumes "get_connectivity_graph fuel nl h0 b = Some (h, r)"
  shows "\<exists>leafs. generate_nodes fuel nl h0 = Some (h, length h0)
           \<and> get_leaf_instance_nodes fuel nl h (length h0) = Some leafs
           \<and> edges_loop fuel nl h b (nodes (node_graph leafs (get_top_port_nodes h (length h0)) b))
               (node_graph leafs (get_top_port_nodes h (length h0)) b) = Some r"
proof -
  from assms obtain h' root where g: "generate_nodes fuel nl h0 = Some (h', root)"
    by (auto simp: get_connectivity_graph_def split: option.splits)
  then have root: "root = length h0" by (auto simp: generate_nodes_def Let_def)
  from assms g obtain leafs where l: "get_leaf_instance_nodes fuel nl h' root = Some leafs"
    by (auto simp: get_connectivity_graph_def split: option.splits)
  from assms g l have "h' = h"
    and "edges_loop fuel nl h b (nodes (node_graph leafs (get_top_port_nodes h root) b))
               (node_graph leafs (get_top_port_nodes h root) b) = Some r"
    by (auto simp: get_connectivity_graph_def node_graph_def Let_def split: if_splits)
  with g l root show ?thesis by auto
qed

lemma node_graph_facts:
  "set (nodes (node_graph leafs tops b)) = set leafs \<union> (if b then set tops else {})"
  "edges (node_graph leafs tops b) = []"
  "distinct (nodes (node_graph leafs tops b))"
proof -
  note a = add_nodes_from_facts[of empty_graph leafs]
  note c = add_nodes_from_facts[of "add_nodes_from empty_graph leafs" tops]
  show "set (nodes (node_graph leafs tops b)) = set leafs \<union> (if b then set tops else {})"
    using a c by (simp add: node_graph_def Let_def empty_graph_def)
  show "edges (node_graph leafs tops b) = []"
    using a c by (simp add: node_graph_def Let_def empty_graph_def)
  show "distinct (nodes (node_graph leafs tops b))"
    using a c by (simp add: node_graph_def Let_def empty_graph_def)
qed

lemma connectivity_graph_shape:
  assumes run: "get_connectivity_graph fuel nl h0 b = Some (h, Inr g)" and lc: "leaves_childless nl"
  shows "\<exists>leafs. generate_nodes fuel nl h0 = Some (h, length h0)
           \<and> get_leaf_instance_nodes fuel nl h (length h0) = Some leafs
           \<and> set leafs = {a \<in> tree_nodes h (length h0). leaf_node nl h a}
           \<and> nodes g = nodes (node_graph leafs (get_top_port_nodes h (length h0)) b)
           \<and> set (nodes g) = selected nl h (length h0) b
           \<and> distinct (nodes g) \<and> distinct (edges g)
           \<and> set (edges g) = downstream_edges fuel nl h b (selected nl h (length h0) b)"
proof -
  let ?root = "length h0"
  from get_connectivity_graph_Some[OF run] obtain leafs where
    g: "generate_nodes fuel nl h0 = Some (h, ?root)"
    and l: "get_leaf_instance_nodes fuel nl h ?root = Some leafs"
    and e: "edges_loop fuel nl h b (nodes (node_graph leafs (get_top_port_nodes h ?root) b))
               (node_graph leafs (get_top_port_nodes h ?root) b) = Some (Inr g)"
    by blast
  let ?g0 = "node_graph leafs (get_top_port_nodes h ?root) b"
  from generate_nodes_hierarchy(2)[OF g]
  have k: "kids_ok ?root h" and p: "parents_ok ?root h" and ex: "expanded nl ?root h {}"
    by (simp_all add: hierarchy_def)
  from p have r: "?root < length h" by (simp add: parents_ok_def)
  from get_leaf_instance_nodes_set[OF k ex lc r l]
  have ls: "set leafs = {a \<in> tree_nodes h ?root. leaf_node nl h a}" .
  have sel: "set (nodes ?g0) = selected nl h ?root b"
    by (simp add: node_graph_facts(1) ls selected_def)
  have step: "set ds \<subseteq> selected nl h ?root b"
    if "n \<in> selected nl h ?root b" "get_downstream_nodes fuel nl h n b = Some (Inr ds)" for n ds
    using get_downstream_nodes_selected[OF k p _ that(2)] selected_tree_nodes[OF k r] that(1)
    by blast
  from edges_loop_facts[where S="selected nl h ?root b", OF step e _ sel] sel
  have "nodes g = nodes ?g0
     \<and> set (edges g) = set (edges ?g0) \<union> downstream_edges fuel nl h b (set (nodes ?g0))
     \<and> (distinct (edges ?g0) \<longrightarrow> distinct (edges g))"
    by simp
  with sel g l ls show ?thesis
    by (intro exI[of _ leafs]) (simp add: node_graph_facts)
qed

lemma leaves_childless_chain: "leaves_childless chain"
  by (simp add: leaves_childless_def chain_def)

text \<open>
  Claim C9. Let the tree be built by \<open>generate_nodes\<close> and its leaf instance nodes be
  collected by \<open>get_leaf_instance_nodes\<close>, in a netlist whose leaf definitions have no child
  instances. Every node that \<open>get_downstream_nodes\<close> returns from a selected node is a
  collected node that wraps an instance of a leaf definition, or, only when top ports are
  included, a port node that is a child of the top node. So every edge of the graph that
  \<open>get_connectivity_graph\<close> returns joins two nodes of the node set made before the edges,
  and adding the edges adds no node.
\<close>

theorem downstream_nodes_are_selected:
  assumes "generate_nodes fuel nl h0 = Some (h, root)"
    and "get_leaf_instance_nodes fuel nl h root = Some leaf_instance_nodes"
    and "leaves_childless nl"
  shows "(\<forall>node ds d.
            node \<in> set leaf_instance_nodes \<union> set (get_top_port_nodes h root)
            \<and> get_downstream_nodes fuel nl h node include_top_ports = Some (Inr ds) \<and> d \<in> set ds \<longrightarrow>
              (d \<in> set leaf_instance_nodes \<and> leaf_node nl h d)
              \<or> (include_top_ports \<and> d \<in> set (get_top_port_nodes h root)
                  \<and> is_Port (item (h ! d)) \<and> parent (h ! d) = Some root))
       \<and> (\<forall>h' g. get_connectivity_graph fuel nl h0 include_top_ports = Some (h', Inr g) \<longrightarrow>
            nodes g = nodes (node_graph leaf_instance_nodes (get_top_port_nodes h root) include_top_ports)
            \<and> (\<forall>e \<in> set (edges g). fst e \<in> set (nodes g) \<and> snd e \<in> set (nodes g)))"
proof (intro conjI allI impI)
  from generate_nodes_hierarchy[OF assms(1)]
  have root: "root = length h0" and hi: "hierarchy nl root h" by simp_all
  from hi have k: "kids_ok root h" and p: "parents_ok root h" and ex: "expanded nl root h {}"
    by (simp_all add: hierarchy_def)
  from p have r: "root < length h" by (simp add: parents_ok_def)
  from get_leaf_instance_nodes_set[OF k ex assms(3) r assms(2)]
  have ls: "set leaf_instance_nodes = {a \<in> tree_nodes h root. leaf_node nl h a}" .
  {
    fix node ds d
    assume a: "node \<in> set leaf_instance_nodes \<union> set (get_top_port_nodes h root)
            \<and> get_downstream_nodes fuel nl h node include_top_ports = Some (Inr ds) \<and> d \<in> set ds"
    then have "node \<in> tree_nodes h root"
      using ls top_port_nodes_facts[OF k r] by auto
    from get_downstream_nodes_selected[OF k p this] a
    have "d \<in> selected nl h root include_top_ports" by blast
    then show "(d \<in> set leaf_instance_nodes \<and> leaf_node nl h d)
              \<or> (include_top_ports \<and> d \<in> set (get_top_port_nodes h root)
                  \<and> is_Port (item (h ! d)) \<and> parent (h ! d) = Some root)"
      using ls top_port_nodes_facts[OF k r, of d]
      by (auto simp: selected_def split: if_splits)
  }
  {
    fix h' g
    assume run: "get_connectivity_graph fuel nl h0 include_top_ports = Some (h', Inr g)"
    from connectivity_graph_shape[OF run assms(3)] obtain leafs where
      s: "generate_nodes fuel nl h0 = Some (h', length h0)"
      "get_leaf_instance_nodes fuel nl h' (length h0) = Some leafs"
      "nodes g = nodes (node_graph leafs (get_top_port_nodes h' (length h0)) include_top_ports)"
      "set (nodes g) = selected nl h' (length h0) include_top_ports"
      "set (edges g) = downstream_edges fuel nl h' include_top_ports
                          (selected nl h' (length h0) include_top_ports)"
      by blast
    from generate_nodes_hierarchy(2)[OF s(1)]
    have k': "kids_ok (length h0) h'" and p': "parents_ok (length h0) h'"
      by (simp_all add: hierarchy_def)
    from p' have r': "length h0 < length h'" by (simp add: parents_ok_def)
    show "\<forall>e \<in> set (edges g). fst e \<in> set (nodes g) \<and> snd e \<in> set (nodes g)"
    proof
      fix e assume "e \<in> set (edges g)"
      with s(5) obtain ds where e: "fst e \<in> selected nl h' (length h0) include_top_ports"
        "get_downstream_nodes fuel nl h' (fst e) include_top_ports = Some (Inr ds)" "snd e \<in> set ds"
        by (auto simp: downstream_edges_def)
      from e(1) selected_tree_nodes[OF k' r'] have "fst e \<in> tree_nodes h' (length h0)" by blast
      from get_downstream_nodes_selected[OF k' p' this e(2)] e(1,3) s(4)
      show "fst e \<in> set (nodes g) \<and> snd e \<in> set (nodes g)" by auto
    qed
    from assms(1,2) s(1,2) root have "h' = h \<and> leafs = leaf_instance_nodes" by simp
    with s(3) root
    show "nodes g = nodes (node_graph leaf_instance_nodes (get_top_port_nodes h root) include_top_ports)"
      by simp
  }
qed

lemma leafs_chain: "get_leaf_instance_nodes 30 chain chain_heap 0 = Some [7, 6]"
  by code_simp

theorem downstream_nodes_are_selected_witness:
  "generate_nodes 30 chain [] = Some (chain_heap, 0)
   \<and> get_leaf_instance_nodes 30 chain chain_heap 0 = Some [7, 6]
   \<and> leaves_childless chain
   \<and> get_top_port_nodes chain_heap 0 = [1, 2]
   \<and> get_downstream_nodes 30 chain chain_heap 7 True = Some (Inr [7, 2])
   \<and> (7 \<in> set [7, 6::nat] \<and> leaf_node chain chain_heap 7
        \<or> True \<and> 7 \<in> set (get_top_port_nodes chain_heap 0)
            \<and> is_Port (item (chain_heap ! 7)) \<and> parent (chain_heap ! 7) = Some 0)
   \<and> (2 \<in> set [7, 6::nat] \<and> leaf_node chain chain_heap 2
        \<or> True \<and> 2 \<in> set (get_top_port_nodes chain_heap 0)
            \<and> is_Port (item (chain_heap ! 2)) \<and> parent (chain_heap ! 2) = Some 0)
   \<and> nodes \<lparr>nodes = [7, 6, 1, 2], edges = [(7, 7), (7, 2), (6, 6), (6, 7), (1, 6)]\<rparr>
       = nodes (node_graph [7, 6] (get_top_port_nodes chain_heap 0) True)"
proof -
  note t = downstream_nodes_are_selected[OF gen_chain leafs_chain leaves_childless_chain, of True]
  have tp: "get_top_port_nodes chain_heap 0 = [1, 2]" by code_simp
  have d: "get_downstream_nodes 30 chain chain_heap 7 True = Some (Inr [7, 2])" by code_simp
  have g: "get_connectivity_graph 30 chain [] True
     = Some (chain_heap, Inr \<lparr>nodes = [7, 6, 1, 2], edges = [(7, 7), (7, 2), (6, 6), (6, 7), (1, 6)]\<rparr>)"
    by code_simp
  have a7: "7 \<in> set [7, 6::nat] \<union> set (get_top_port_nodes chain_heap 0)
            \<and> get_downstream_nodes 30 chain chain_heap 7 True = Some (Inr [7, 2]) \<and> 7 \<in> set [7, 2::nat]"
    using d by simp
  have a2: "7 \<in> set [7, 6::nat] \<union> set (get_top_port_nodes chain_heap 0)
            \<and> get_downstream_nodes 30 chain chain_heap 7 True = Some (Inr [7, 2]) \<and> 2 \<in> set [7, 2::nat]"
    using d by simp
  note r7 = t[THEN conjunct1, THEN spec, THEN spec, THEN spec, THEN mp, OF a7]
  note r2 = t[THEN conjunct1, THEN spec, THEN spec, THEN spec, THEN mp, OF a2]
  note rg = t[THEN conjunct2, THEN spec, THEN spec, THEN mp, OF g, THEN conjunct1]
  show ?thesis
    by (intro conjI gen_chain leafs_chain leaves_childless_chain tp d r7 r2 rg)
qed

subsection \<open>Names that do not resolve\<close>

lemma sel_data:
  "top_instance (nl\<lparr>element_data := d\<rparr>) = top_instance nl"
  "instance_reference (nl\<lparr>element_data := d\<rparr>) = instance_reference nl"
  "instance_pins (nl\<lparr>element_data := d\<rparr>) = instance_pins nl"
  "definition_ports (nl\<lparr>element_data := d\<rparr>) = definition_ports nl"
  "definition_cables (nl\<lparr>element_data := d\<rparr>) = definition_cables nl"
  "definition_children (nl\<lparr>element_data := d\<rparr>) = definition_children nl"
  "definition_is_leaf (nl\<lparr>element_data := d\<rparr>) = definition_is_leaf nl"
  "port_direction (nl\<lparr>element_data := d\<rparr>) = port_direction nl"
  "port_pins (nl\<lparr>element_data := d\<rparr>) = port_pins nl"
  "cable_wires (nl\<lparr>element_data := d\<rparr>) = cable_wires nl"
  "wire_cable (nl\<lparr>element_data := d\<rparr>) = wire_cable nl"
  "wire_pins (nl\<lparr>element_data := d\<rparr>) = wire_pins nl"
  "innerpin_port (nl\<lparr>element_data := d\<rparr>) = innerpin_port nl"
  "innerpin_wire (nl\<lparr>element_data := d\<rparr>) = innerpin_wire nl"
  "outerpin_wire (nl\<lparr>element_data := d\<rparr>) = outerpin_wire nl"
  by simp_all

lemma child_elements_data: "child_elements (nl\<lparr>element_data := d\<rparr>) x = child_elements nl x"
  by (cases x) simp_all

lemma generate_loop_data:
  "generate_loop fuel (nl\<lparr>element_data := d\<rparr>) h st = generate_loop fuel nl h st"
proof (induction fuel arbitrary: h st)
  case 0
  then show ?case by (cases st) simp_all
next
  case (Suc fuel)
  show ?case
  proof (cases st)
    case Nil
    then show ?thesis by simp
  next
    case (Cons node rest)
    show ?thesis
      unfolding Cons generate_loop_Suc child_elements_data Let_def Suc.IH ..
  qed
qed

lemma generate_nodes_data:
  "generate_nodes fuel (nl\<lparr>element_data := d\<rparr>) h = generate_nodes fuel nl h"
  unfolding generate_nodes_def generate_loop_data sel_data ..

lemma leaf_loop_data:
  "leaf_loop fuel (nl\<lparr>element_data := d\<rparr>) h st acc = leaf_loop fuel nl h st acc"
proof (induction fuel arbitrary: st acc)
  case 0
  then show ?case by (cases st) simp_all
next
  case (Suc fuel)
  show ?case
  proof (cases st)
    case Nil
    then show ?thesis by simp
  next
    case (Cons node rest)
    show ?thesis
      unfolding Cons leaf_loop.simps sel_data Suc.IH ..
  qed
qed

lemma wire_node_of_data: "wire_node_of (nl\<lparr>element_data := d\<rparr>) = wire_node_of nl"
  unfolding fun_eq_iff wire_node_of_def sel_data by (intro allI refl)

lemma push_wire_data: "push_wire (nl\<lparr>element_data := d\<rparr>) = push_wire nl"
  unfolding fun_eq_iff push_wire_def wire_node_of_data by (intro allI refl)

lemma seed_instance_pin_data: "seed_instance_pin (nl\<lparr>element_data := d\<rparr>) = seed_instance_pin nl"
  unfolding fun_eq_iff seed_instance_pin_def push_wire_data sel_data by (intro allI refl)

lemma seed_port_pin_data: "seed_port_pin (nl\<lparr>element_data := d\<rparr>) = seed_port_pin nl"
  unfolding fun_eq_iff seed_port_pin_def push_wire_data sel_data by (intro allI refl)

lemma seed_step_data: "seed_step (nl\<lparr>element_data := d\<rparr>) = seed_step nl"
  unfolding fun_eq_iff seed_step_def seed_instance_pin_data seed_port_pin_data sel_data
  by (intro allI refl)

lemma leave_instance_data: "leave_instance (nl\<lparr>element_data := d\<rparr>) = leave_instance nl"
  unfolding fun_eq_iff leave_instance_def push_wire_data sel_data by (intro allI refl)

lemma enter_instance_data: "enter_instance (nl\<lparr>element_data := d\<rparr>) = enter_instance nl"
  unfolding fun_eq_iff enter_instance_def push_wire_data sel_data by (intro allI refl)

lemma visit_pin_data: "visit_pin (nl\<lparr>element_data := d\<rparr>) = visit_pin nl"
  unfolding fun_eq_iff visit_pin_def visit_inner_pin_def visit_outer_pin_def leave_instance_data
    enter_instance_data sel_data
  by (intro allI refl)

lemma visit_wire_data: "visit_wire (nl\<lparr>element_data := d\<rparr>) = visit_wire nl"
  unfolding fun_eq_iff visit_wire_def visit_pin_data sel_data by (intro allI refl)

lemma search_loop_0:
  "search_stack s = wn # rest \<Longrightarrow> search_loop 0 nl h b s = None"
  by (subst search_loop.simps) simp

declare search_loop.simps [simp del]

lemma search_loop_data:
  "search_loop fuel (nl\<lparr>element_data := d\<rparr>) h b s = search_loop fuel nl h b s"
proof (induction fuel arbitrary: s)
  case 0
  show ?case
  proof (cases "search_stack s")
    case Nil
    then show ?thesis by (simp only: search_loop_Nil)
  next
    case (Cons wn rest)
    then show ?thesis by (simp only: search_loop_0)
  qed
next
  case (Suc fuel)
  show ?case
  proof (cases "search_stack s")
    case Nil
    then show ?thesis by (simp only: search_loop_Nil)
  next
    case (Cons wn rest)
    show ?thesis
      unfolding search_loop_Suc[OF Cons] visit_wire_data Suc.IH ..
  qed
qed

lemma get_downstream_nodes_data:
  "get_downstream_nodes fuel (nl\<lparr>element_data := d\<rparr>) = get_downstream_nodes fuel nl"
  unfolding fun_eq_iff get_downstream_nodes_def seed_step_data search_loop_data
  by (intro allI refl)

lemma edges_loop_data:
  "edges_loop fuel (nl\<lparr>element_data := d\<rparr>) h b ns g = edges_loop fuel nl h b ns g"
proof (induction ns arbitrary: g)
  case Nil
  show ?case by (simp only: edges_loop.simps)
next
  case (Cons n ns)
  show ?case unfolding edges_loop.simps get_downstream_nodes_data Cons.IH ..
qed

lemma get_connectivity_graph_data:
  "get_connectivity_graph fuel (nl\<lparr>element_data := d\<rparr>) h b = get_connectivity_graph fuel nl h b"
  unfolding get_connectivity_graph_def generate_nodes_data get_leaf_instance_nodes_def
      leaf_loop_data edges_loop_data ..

lemma get_name_Wire_or_Pin:
  "is_Wire_or_Pin (item (h ! node)) \<Longrightarrow> get_name nl h node = Inl TypeError"
  by (cases "item (h ! node)") (simp_all add: get_name_def)

lemma get_name_unresolved:
  assumes "\<not> is_Wire_or_Pin (item (h ! node))"
    and "element_data nl (item (h ! node)) ''EDIF.original_identifier'' = None"
    and "element_data nl (item (h ! node)) ''EDIF.identifier'' = None"
  shows "get_name nl h node = Inr None"
  using assms by (cases "item (h ! node)") (simp_all add: get_name_def)

lemma names_of_resolved:
  "\<forall>p \<in> set ps. \<exists>n. get_name nl h p = Inr (Some n) \<Longrightarrow> \<exists>names. names_of nl h ps = Inr names"
proof (induction ps)
  case Nil
  then show ?case by simp
next
  case (Cons p ps)
  then obtain n names where "get_name nl h p = Inr (Some n)" "names_of nl h ps = Inr names"
    by auto
  then show ?case by (simp add: ebind_def)
qed

text \<open>
  Claim C6 as stated fails: instance \<open>A\<close> carries neither identifier, \<open>get_name\<close> returns
  \<^verbatim>\<open>None\<close> for its node and \<open>get_hiearchical_name\<close> returns the text \<^verbatim>\<open>top/None\<close>; nothing
  is raised and nothing is flagged.
\<close>

theorem unresolved_name_not_reported:
  "element_data nameless_A (item (chain_heap ! 6)) ''EDIF.original_identifier'' = None
   \<and> element_data nameless_A (item (chain_heap ! 6)) ''EDIF.identifier'' = None
   \<and> get_name nameless_A chain_heap 6 = Inr None
   \<and> get_hiearchical_name 30 nameless_A chain_heap 6 = Some (Inr (Some ''top/None''))"
  by code_simp

text \<open>
  Claim C6, amended. When a node wraps an instance, a port or a cable that carries neither
  \<^verbatim>\<open>EDIF.original_identifier\<close> nor \<^verbatim>\<open>EDIF.identifier\<close>, \<open>get_name\<close> returns \<^verbatim>\<open>None\<close> and
  raises nothing; \<open>get_hiearchical_name\<close> of such a node whose ancestors all resolve a name
  raises nothing either, it returns a value. \<open>get_connectivity_graph\<close> does not read the
  identifiers: its result is the same whatever they are.
\<close>

theorem unresolved_name_is_None:
  assumes "\<not> is_Wire_or_Pin (item (h ! node))"
    and "element_data nl (item (h ! node)) ''EDIF.original_identifier'' = None"
    and "element_data nl (item (h ! node)) ''EDIF.identifier'' = None"
  shows "get_name nl h node = Inr None
    \<and> (\<forall>ps. parents_loop fuel h (parent (h ! node)) [] = Some ps
            \<and> (\<forall>p \<in> set ps. \<exists>n. get_name nl h p = Inr (Some n)) \<longrightarrow>
          (\<exists>r. get_hiearchical_name fuel nl h node = Some (Inr r)))
    \<and> get_connectivity_graph fuel' (nl\<lparr>element_data := d\<rparr>) h0 b = get_connectivity_graph fuel' nl h0 b"
proof (intro conjI allI impI)
  show n: "get_name nl h node = Inr None" by (rule get_name_unresolved[OF assms])
  show "get_connectivity_graph fuel' (nl\<lparr>element_data := d\<rparr>) h0 b = get_connectivity_graph fuel' nl h0 b"
    by (rule get_connectivity_graph_data)
  fix ps
  assume a: "parents_loop fuel h (parent (h ! node)) [] = Some ps
            \<and> (\<forall>p \<in> set ps. \<exists>n. get_name nl h p = Inr (Some n))"
  then have "\<forall>p \<in> set (rev ps). \<exists>n. get_name nl h p = Inr (Some n)" by simp
  from names_of_resolved[OF this] obtain names where
    ns: "names_of nl h (rev ps) = Inr names" by blast
  from a ns n assms(1) show "\<exists>r. get_hiearchical_name fuel nl h node = Some (Inr r)"
    by (cases "item (h ! node)")
      (simp_all add: get_hiearchical_name_def Let_def ebind_def)
qed

theorem unresolved_name_is_None_witness:
  "\<not> is_Wire_or_Pin (item (chain_heap ! 6))
   \<and> element_data nameless_A (item (chain_heap ! 6)) ''EDIF.original_identifier'' = None
   \<and> element_data nameless_A (item (chain_heap ! 6)) ''EDIF.identifier'' = None
   \<and> get_name nameless_A chain_heap 6 = Inr None
   \<and> parents_loop 30 chain_heap (parent (chain_heap ! 6)) [] = Some [0]
   \<and> get_name nameless_A chain_heap 0 = Inr (Some ''top'')
   \<and> (\<exists>r. get_hiearchical_name 30 nameless_A chain_heap 6 = Some (Inr r))
   \<and> get_connectivity_graph 30 (nameless_A\<lparr>element_data := element_data chain\<rparr>) [] True
        = get_connectivity_graph 30 nameless_A [] True"
proof -
  have nw: "\<not> is_Wire_or_Pin (item (chain_heap ! 6))" by code_simp
  have d1: "element_data nameless_A (item (chain_heap ! 6)) ''EDIF.original_identifier'' = None"
    by code_simp
  have d2: "element_data nameless_A (item (chain_heap ! 6)) ''EDIF.identifier'' = None"
    by code_simp
  have pl: "parents_loop 30 chain_heap (parent (chain_heap ! 6)) [] = Some [0]" by code_simp
  have n0: "get_name nameless_A chain_heap 0 = Inr (Some ''top'')" by code_simp
  have pre: "parents_loop 30 chain_heap (parent (chain_heap ! 6)) [] = Some [0]
            \<and> (\<forall>p \<in> set [0]. \<exists>n. get_name nameless_A chain_heap p = Inr (Some n))"
    using pl n0 by simp
  note t = unresolved_name_is_None[OF nw d1 d2, of 30 30 "element_data chain" "[]" True]
  note t1 = t[THEN conjunct1]
  note t2 = t[THEN conjunct2, THEN conjunct1, THEN spec, THEN mp, OF pre]
  note t3 = t[THEN conjunct2, THEN conjunct2]
  show ?thesis by (intro conjI nw d1 d2 t1 pl n0 t2 t3)
qed

subsection \<open>Relocation of generate_nodes\<close>

lemma shift_result_simps [simp]:
  "shift_result f (Inl e) = Inl e" "shift_result f (Inr x) = Inr (f x)"
  by (simp_all add: shift_result_def)

lemma relocate_nth:
  "a < length t \<Longrightarrow> relocate h0 t ! (a + length h0) = shift_node (length h0) (t ! a)"
  by (simp add: relocate_def nth_append)

lemma relocate_length: "length (relocate h0 t) = length t + length h0"
  by (simp add: relocate_def)

lemma shift_node_simps [simp]:
  "item (shift_node d n) = item n"
  "parent (shift_node d n) = map_option (\<lambda>p. p + d) (parent n)"
  "children (shift_node d n) = map (\<lambda>kv. (fst kv, snd kv + d)) (children n)"
  by (simp_all add: shift_node_def)

lemma update_shift:
  "AList.update x (c + d) (map (\<lambda>kv. (fst kv, snd kv + d)) al)
     = map (\<lambda>kv. (fst kv, snd kv + d)) (AList.update x c al)"
  by (induction al) auto

lemma map_of_shift:
  "map_of (map (\<lambda>kv. (fst kv, snd kv + d)) al) x = map_option (\<lambda>c. c + (d::nat)) (map_of al x)"
  by (induction al) auto

lemma shift_node_init: "shift_node d (Node_init (Some p) x) = Node_init (Some (p + d)) x"
  by (simp add: shift_node_def Node_init_def)

lemma new_child_relocate:
  assumes "node < length t"
  shows "new_child (node + length h0) (relocate h0 t, map (\<lambda>a. a + length h0) st) x
         = (relocate h0 (fst (new_child node (t, st) x)),
            map (\<lambda>a. a + length h0) (snd (new_child node (t, st) x)))"
proof -
  let ?d = "length h0"
  have n: "node + ?d < length (relocate h0 t)" using assms by (simp add: relocate_length)
  have u: "(h0 @ map (shift_node ?d) t)[node + ?d := v] = h0 @ (map (shift_node ?d) t)[node := v]" for v
    by (simp add: list_update_append)
  have "shift_node ?d ((t ! node)\<lparr>children := AList.update x (length t) (children (t ! node))\<rparr>)
        = (shift_node ?d (t ! node))\<lparr>children :=
             AList.update x (length t + ?d) (children (shift_node ?d (t ! node)))\<rparr>"
    by (simp add: shift_node_def update_shift)
  then show ?thesis
    using assms
    by (simp add: new_child_eq[OF n] new_child_eq[OF assms] relocate_nth relocate_length)
       (simp add: relocate_def u map_update shift_node_init)
qed

lemma foldl_new_child_relocate:
  "node < length t \<Longrightarrow>
   foldl (new_child (node + length h0)) (relocate h0 t, map (\<lambda>a. a + length h0) st) xs
     = (relocate h0 (fst (foldl (new_child node) (t, st) xs)),
        map (\<lambda>a. a + length h0) (snd (foldl (new_child node) (t, st) xs)))"
proof (induction xs arbitrary: t st)
  case Nil
  then show ?case by simp
next
  case (Cons x xs)
  let ?s = "new_child node (t, st) x"
  have "node < length (fst ?s)" using Cons.prems by (simp add: new_child_length)
  from Cons.IH[OF this, of "snd ?s"] show ?case
    by (simp add: new_child_relocate[OF Cons.prems])
qed

lemma generate_loop_relocate:
  "\<forall>a \<in> set st. a < length t \<Longrightarrow>
   generate_loop fuel nl (relocate h0 t) (map (\<lambda>a. a + length h0) st)
     = map_option (relocate h0) (generate_loop fuel nl t st)"
proof (induction fuel arbitrary: t st)
  case 0
  then show ?case by (cases st) simp_all
next
  case (Suc fuel)
  show ?case
  proof (cases st)
    case Nil
    then show ?thesis by simp
  next
    case (Cons node rest)
    with Suc.prems have n: "node < length t" and r: "\<forall>a \<in> set rest. a < length t" by simp_all
    let ?xs = "child_elements nl (item (t ! node))"
    let ?s = "foldl (new_child node) (t, rest) ?xs"
    have st: "\<forall>a \<in> set (snd ?s). a < length (fst ?s)"
    proof -
      have "\<forall>a \<in> set (snd (foldl (new_child node) (t', st') xs)).
              a < length (fst (foldl (new_child node) (t', st') xs))"
        if "node < length t'" "\<forall>a \<in> set st'. a < length t'" for xs t' st'
        using that
      proof (induction xs arbitrary: t' st')
        case Nil
        then show ?case by simp
      next
        case (Cons x xs)
        let ?u = "new_child node (t', st') x"
        have "node < length (fst ?u)" "\<forall>a \<in> set (snd ?u). a < length (fst ?u)"
          using Cons.prems by (auto simp: new_child_length new_child_stack)
        from Cons.IH[OF this] show ?case by simp
      qed
      from this[OF n r] show ?thesis .
    qed
    have "generate_loop (Suc fuel) nl (relocate h0 t) (map (\<lambda>a. a + length h0) st)
          = generate_loop fuel nl (relocate h0 (fst ?s)) (map (\<lambda>a. a + length h0) (snd ?s))"
      unfolding Cons list.map generate_loop_Suc Let_def
      by (simp add: relocate_nth[OF n] foldl_new_child_relocate[OF n])
    also have "\<dots> = map_option (relocate h0) (generate_loop fuel nl (fst ?s) (snd ?s))"
      by (rule Suc.IH[OF st])
    also have "\<dots> = map_option (relocate h0) (generate_loop (Suc fuel) nl t st)"
      unfolding Cons generate_loop_Suc Let_def ..
    finally show ?thesis .
  qed
qed

lemma generate_nodes_relocate:
  "generate_nodes fuel nl h0
     = map_option (\<lambda>r. (relocate h0 (fst r), snd r + length h0)) (generate_nodes fuel nl [])"
proof -
  have "h0 @ [Node_init None (Instance (top_instance nl))]
        = relocate h0 [Node_init None (Instance (top_instance nl))]"
    by (simp add: relocate_def shift_node_def Node_init_def)
  moreover have "[length h0] = map (\<lambda>a. a + length h0) [0]" by simp
  ultimately have "generate_loop fuel nl (h0 @ [Node_init None (Instance (top_instance nl))]) [length h0]
        = map_option (relocate h0)
            (generate_loop fuel nl [Node_init None (Instance (top_instance nl))] [0])"
    using generate_loop_relocate[of "[0]" "[Node_init None (Instance (top_instance nl))]" fuel nl h0]
    by simp
  then show ?thesis
    by (simp add: generate_nodes_def Let_def option.map_comp comp_def)
qed

subsection \<open>Relocation of get_downstream_nodes\<close>

lemma ebind_relocate:
  assumes "m' = shift_result f m" and "\<And>x. m = Inr x \<Longrightarrow> g' (f x) = shift_result k (g x)"
  shows "ebind m' g' = shift_result k (ebind m g)"
  using assms by (cases m) (simp_all add: ebind_def)

lemma child_relocate:
  "a < length t \<Longrightarrow>
   child (relocate h0 t) (a + length h0) e = shift_result (\<lambda>c. c + length h0) (child t a e)"
  by (cases "map_of (children (t ! a)) e") (simp_all add: child_def relocate_nth map_of_shift)

lemma node_relocate:
  "a < length t \<Longrightarrow> parent (relocate h0 t ! (a + length h0)) = map_option (\<lambda>p. p + length h0) (parent (t ! a))"
  "a < length t \<Longrightarrow> item (relocate h0 t ! (a + length h0)) = item (t ! a)"
  "a < length t \<Longrightarrow> children (relocate h0 t ! (a + length h0))
      = map (\<lambda>kv. (fst kv, snd kv + length h0)) (children (t ! a))"
  by (simp_all add: relocate_nth)

lemma child_in_range:
  "kids_ok 0 t \<Longrightarrow> a < length t \<Longrightarrow> child t a e = Inr c \<Longrightarrow> c < length t"
  using child_region[of 0 t a e c] by simp

lemma parent_in_range:
  "parents_ok 0 t \<Longrightarrow> a < length t \<Longrightarrow> parent (t ! a) = Some q \<Longrightarrow> q < length t"
  using parent_region[of 0 t a q] by simp

lemma wire_node_of_relocate:
  assumes k: "kids_ok 0 t" and i: "\<forall>i. po = Some i \<longrightarrow> i < length t"
  shows "wire_node_of nl (relocate h0 t) (map_option (\<lambda>p. p + length h0) po) w
         = shift_result (\<lambda>c. c + length h0) (wire_node_of nl t po w)"
proof (cases po)
  case None
  then show ?thesis by (simp add: wire_node_of_def child_opt_def ebind_def)
next
  case (Some j)
  with i have j: "j < length t" by simp
  show ?thesis
    unfolding Some wire_node_of_def child_opt_def option.map option.case
  proof (rule ebind_relocate[OF child_relocate[OF j]])
    fix cn assume "child t j (Cable (wire_cable nl w)) = Inr cn"
    from child_in_range[OF k j this]
    show "child (relocate h0 t) (cn + length h0) (Wire w)
          = shift_result (\<lambda>c. c + length h0) (child t cn (Wire w))"
      by (rule child_relocate)
  qed
qed

lemma wire_node_of_in_range:
  assumes "kids_ok 0 t" "i < length t" "wire_node_of nl t (Some i) w = Inr wn"
  shows "wn < length t"
  using wire_node_of_region[of 0 t i nl w wn] assms by simp

lemma shift_search_simps [simp]:
  "found_pin_nodes (shift_search d s) = (\<lambda>a. a + d) ` found_pin_nodes s"
  "search_stack (shift_search d s) = map (\<lambda>a. a + d) (search_stack s)"
  "downstream_nodes (shift_search d s) = map (\<lambda>a. a + d) (downstream_nodes s)"
  by (simp_all add: shift_search_def)

lemma shift_search_updates:
  "shift_search d (s\<lparr>search_stack := st\<rparr>) = (shift_search d s)\<lparr>search_stack := map (\<lambda>a. a + d) st\<rparr>"
  "shift_search d (s\<lparr>found_pin_nodes := f\<rparr>) = (shift_search d s)\<lparr>found_pin_nodes := (\<lambda>a. a + d) ` f\<rparr>"
  "shift_search d (s\<lparr>downstream_nodes := ds\<rparr>)
     = (shift_search d s)\<lparr>downstream_nodes := map (\<lambda>a. a + d) ds\<rparr>"
  by (simp_all add: shift_search_def)

lemma shift_mem: "a + d \<in> (\<lambda>a. a + d) ` A \<longleftrightarrow> a \<in> A" for a d :: nat
  by auto

lemma push_wire_relocate:
  assumes k: "kids_ok 0 t" and i: "\<forall>i. po = Some i \<longrightarrow> i < length t"
  shows "push_wire nl (relocate h0 t) (map_option (\<lambda>p. p + length h0) po) wo (shift_search (length h0) s)
         = shift_result (shift_search (length h0)) (push_wire nl t po wo s)"
proof (cases wo)
  case None
  then show ?thesis by (simp add: push_wire_def)
next
  case (Some w)
  show ?thesis
    unfolding Some push_wire_def option.case
    by (rule ebind_relocate[OF wire_node_of_relocate[OF k i]])
      (simp add: shift_search_updates)
qed

lemma push_wire_relocate_Some:
  assumes k: "kids_ok 0 t" and i: "i < length t"
  shows "push_wire nl (relocate h0 t) (Some (i + length h0)) wo (shift_search (length h0) s)
         = shift_result (shift_search (length h0)) (push_wire nl t (Some i) wo s)"
  using push_wire_relocate[OF k, of "Some i" nl h0 wo s] i by simp

lemma for_each_relocate:
  assumes "\<And>s x. body' (sh s) x = shift_result sh (body s x)"
  shows "for_each body' xs (sh s) = shift_result sh (for_each body xs s)"
proof (induction xs arbitrary: s)
  case Nil
  then show ?case by simp
next
  case (Cons x xs)
  show ?case
    by (cases "body s x") (simp_all add: assms Cons.IH)
qed

lemma seed_instance_pin_relocate:
  assumes k: "kids_ok 0 t" and p: "parents_ok 0 t" and n: "node < length t"
  shows "seed_instance_pin nl (relocate h0 t) (node + length h0) j (shift_search (length h0) s) q
         = shift_result (shift_search (length h0)) (seed_instance_pin nl t node j s q)"
proof (cases "outerpin_wire nl j q")
  case None
  then show ?thesis by (simp add: seed_instance_pin_def)
next
  case (Some w)
  show ?thesis
  proof (cases "port_direction nl (innerpin_port nl q) \<in> {OUT, INOUT}")
    case False
    with Some show ?thesis by (simp add: seed_instance_pin_def)
  next
    case True
    have po: "\<forall>i. parent (t ! node) = Some i \<longrightarrow> i < length t"
      using parent_in_range[OF p n] by blast
    show ?thesis
      unfolding seed_instance_pin_def Some option.case if_P[OF True]
    proof (rule ebind_relocate[OF child_relocate[OF n]])
      fix port_node assume "child t node (Port (innerpin_port nl q)) = Inr port_node"
      from child_in_range[OF k n this] have pn: "port_node < length t" .
      show "ebind (child (relocate h0 t) (port_node + length h0) (Pin (InnerPin q)))
              (\<lambda>pin_node. push_wire nl (relocate h0 t) (parent (relocate h0 t ! (node + length h0)))
                  (Some w)
                  (shift_search (length h0) s
                   \<lparr>found_pin_nodes := insert pin_node (found_pin_nodes (shift_search (length h0) s))\<rparr>))
            = shift_result (shift_search (length h0))
                (ebind (child t port_node (Pin (InnerPin q)))
                  (\<lambda>pin_node. push_wire nl t (parent (t ! node)) (Some w)
                      (s\<lparr>found_pin_nodes := insert pin_node (found_pin_nodes s)\<rparr>)))"
      proof (rule ebind_relocate[OF child_relocate[OF pn]])
        fix pin_node
        show "push_wire nl (relocate h0 t) (parent (relocate h0 t ! (node + length h0))) (Some w)
                (shift_search (length h0) s
                 \<lparr>found_pin_nodes := insert (pin_node + length h0)
                     (found_pin_nodes (shift_search (length h0) s))\<rparr>)
              = shift_result (shift_search (length h0))
                  (push_wire nl t (parent (t ! node)) (Some w)
                    (s\<lparr>found_pin_nodes := insert pin_node (found_pin_nodes s)\<rparr>))"
          using push_wire_relocate[OF k po, of nl h0 "Some w"
              "s\<lparr>found_pin_nodes := insert pin_node (found_pin_nodes s)\<rparr>"]
          by (simp add: node_relocate[OF n] shift_search_updates)
      qed
    qed
  qed
qed

lemma seed_port_pin_relocate:
  assumes k: "kids_ok 0 t" and p: "parents_ok 0 t" and n: "node < length t"
  shows "seed_port_pin nl (relocate h0 t) (node + length h0) (shift_search (length h0) s) q
         = shift_result (shift_search (length h0)) (seed_port_pin nl t node s q)"
proof (cases "innerpin_wire nl q")
  case None
  then show ?thesis by (simp add: seed_port_pin_def)
next
  case (Some w)
  have po: "\<forall>i. parent (t ! node) = Some i \<longrightarrow> i < length t"
    using parent_in_range[OF p n] by blast
  show ?thesis
    unfolding seed_port_pin_def Some option.case
  proof (rule ebind_relocate[OF child_relocate[OF n]])
    fix pin_node
    show "push_wire nl (relocate h0 t) (parent (relocate h0 t ! (node + length h0))) (Some w)
            (shift_search (length h0) s
             \<lparr>found_pin_nodes := insert (pin_node + length h0)
                 (found_pin_nodes (shift_search (length h0) s))\<rparr>)
          = shift_result (shift_search (length h0))
              (push_wire nl t (parent (t ! node)) (Some w)
                (s\<lparr>found_pin_nodes := insert pin_node (found_pin_nodes s)\<rparr>))"
      using push_wire_relocate[OF k po, of nl h0 "Some w"
          "s\<lparr>found_pin_nodes := insert pin_node (found_pin_nodes s)\<rparr>"]
      by (simp add: node_relocate[OF n] shift_search_updates)
  qed
qed

lemma shift_search_empty: "shift_search d empty_search = empty_search"
  by (simp add: shift_search_def empty_search_def)

lemma seed_step_relocate:
  assumes k: "kids_ok 0 t" and p: "parents_ok 0 t" and n: "node < length t"
  shows "seed_step nl (relocate h0 t) (node + length h0) b
         = shift_result (shift_search (length h0)) (seed_step nl t node b)"
proof -
  have i: "for_each (seed_instance_pin nl (relocate h0 t) (node + length h0) j) qs empty_search
        = shift_result (shift_search (length h0))
            (for_each (seed_instance_pin nl t node j) qs empty_search)" for j qs
    using for_each_relocate[where body'="seed_instance_pin nl (relocate h0 t) (node + length h0) j"
        and body="seed_instance_pin nl t node j" and sh="shift_search (length h0)"
        and s=empty_search and xs=qs, OF seed_instance_pin_relocate[OF k p n]]
    by (simp add: shift_search_empty)
  have q: "for_each (seed_port_pin nl (relocate h0 t) (node + length h0)) qs empty_search
        = shift_result (shift_search (length h0))
            (for_each (seed_port_pin nl t node) qs empty_search)" for qs
    using for_each_relocate[where body'="seed_port_pin nl (relocate h0 t) (node + length h0)"
        and body="seed_port_pin nl t node" and sh="shift_search (length h0)"
        and s=empty_search and xs=qs, OF seed_port_pin_relocate[OF k p n]]
    by (simp add: shift_search_empty)
  show ?thesis
  proof (cases "item (t ! node)")
    case (Instance j)
    then show ?thesis by (simp add: seed_step_def node_relocate[OF n] i)
  next
    case (Port r)
    then show ?thesis by (simp add: seed_step_def node_relocate[OF n] q shift_search_empty)
  next
    case (Cable c)
    then show ?thesis by (simp add: seed_step_def node_relocate[OF n] shift_search_empty)
  next
    case (Wire w)
    then show ?thesis by (simp add: seed_step_def node_relocate[OF n] shift_search_empty)
  next
    case (Pin r)
    then show ?thesis by (simp add: seed_step_def node_relocate[OF n] shift_search_empty)
  qed
qed

lemma leave_instance_relocate:
  assumes k: "kids_ok 0 t" and p: "parents_ok 0 t" and i: "i < length t"
  shows "leave_instance nl (relocate h0 t) b (i + length h0) q (port_node + length h0)
           (pin_node + length h0) (shift_search (length h0) s)
         = shift_result (shift_search (length h0)) (leave_instance nl t b i q port_node pin_node s)"
proof (cases "parent (t ! i)")
  case None
  then show ?thesis
    by (simp add: leave_instance_def Let_def node_relocate[OF i] shift_search_updates)
next
  case (Some pi)
  from parent_in_range[OF p i Some] have pr: "pi < length t" .
  show ?thesis
  proof (cases "item (t ! i)")
    case (Instance j)
    show ?thesis
    proof (cases "q \<in> set (instance_pins nl j)")
      case True
      with Some Instance show ?thesis
        using push_wire_relocate_Some[OF k pr, of nl h0 "outerpin_wire nl j q"
            "s\<lparr>found_pin_nodes := insert pin_node (found_pin_nodes s)\<rparr>"]
        by (simp add: leave_instance_def Let_def node_relocate[OF i] shift_search_updates)
    next
      case False
      with Some Instance show ?thesis
        by (simp add: leave_instance_def Let_def node_relocate[OF i])
    qed
  next
    case (Port r)
    with Some show ?thesis by (simp add: leave_instance_def Let_def node_relocate[OF i])
  next
    case (Cable c)
    with Some show ?thesis by (simp add: leave_instance_def Let_def node_relocate[OF i])
  next
    case (Wire w)
    with Some show ?thesis by (simp add: leave_instance_def Let_def node_relocate[OF i])
  next
    case (Pin r)
    with Some show ?thesis by (simp add: leave_instance_def Let_def node_relocate[OF i])
  qed
qed

lemma visit_inner_pin_relocate:
  assumes k: "kids_ok 0 t" and p: "parents_ok 0 t" and i: "i < length t"
  shows "visit_inner_pin nl (relocate h0 t) b (i + length h0) (shift_search (length h0) s) q
         = shift_result (shift_search (length h0)) (visit_inner_pin nl t b i s q)"
  unfolding visit_inner_pin_def
proof (rule ebind_relocate[OF child_relocate[OF i]])
  fix port_node assume "child t i (Port (innerpin_port nl q)) = Inr port_node"
  from child_in_range[OF k i this] have pn: "port_node < length t" .
  show "ebind (child (relocate h0 t) (port_node + length h0) (Pin (InnerPin q)))
          (\<lambda>pin_node.
              if pin_node \<notin> found_pin_nodes (shift_search (length h0) s)
              then leave_instance nl (relocate h0 t) b (i + length h0) q (port_node + length h0)
                     pin_node (shift_search (length h0) s)
              else Inr (shift_search (length h0) s))
        = shift_result (shift_search (length h0))
            (ebind (child t port_node (Pin (InnerPin q)))
              (\<lambda>pin_node.
                  if pin_node \<notin> found_pin_nodes s
                  then leave_instance nl t b i q port_node pin_node s else Inr s))"
  proof (rule ebind_relocate[OF child_relocate[OF pn]])
    fix pin_node
    show "(if pin_node + length h0 \<notin> found_pin_nodes (shift_search (length h0) s)
           then leave_instance nl (relocate h0 t) b (i + length h0) q (port_node + length h0)
                  (pin_node + length h0) (shift_search (length h0) s)
           else Inr (shift_search (length h0) s))
          = shift_result (shift_search (length h0))
              (if pin_node \<notin> found_pin_nodes s
               then leave_instance nl t b i q port_node pin_node s else Inr s)"
      by (simp add: shift_mem leave_instance_relocate[OF k p i])
  qed
qed

lemma enter_instance_relocate:
  assumes k: "kids_ok 0 t" and n: "instance_node < length t"
  shows "enter_instance nl (relocate h0 t) (instance_node + length h0) q (shift_search (length h0) s)
         = shift_result (shift_search (length h0)) (enter_instance nl t instance_node q s)"
  unfolding enter_instance_def
proof (rule ebind_relocate[OF child_relocate[OF n]])
  fix port_node assume "child t instance_node (Port (innerpin_port nl q)) = Inr port_node"
  from child_in_range[OF k n this] have pn: "port_node < length t" .
  show "ebind (child (relocate h0 t) (port_node + length h0) (Pin (InnerPin q)))
          (\<lambda>pin_node.
              push_wire nl (relocate h0 t) (Some (instance_node + length h0)) (innerpin_wire nl q)
                (shift_search (length h0) s
                 \<lparr>found_pin_nodes := insert pin_node (found_pin_nodes (shift_search (length h0) s))\<rparr>))
        = shift_result (shift_search (length h0))
            (ebind (child t port_node (Pin (InnerPin q)))
              (\<lambda>pin_node.
                  push_wire nl t (Some instance_node) (innerpin_wire nl q)
                    (s\<lparr>found_pin_nodes := insert pin_node (found_pin_nodes s)\<rparr>)))"
  proof (rule ebind_relocate[OF child_relocate[OF pn]])
    fix pin_node
    show "push_wire nl (relocate h0 t) (Some (instance_node + length h0)) (innerpin_wire nl q)
            (shift_search (length h0) s
             \<lparr>found_pin_nodes := insert (pin_node + length h0)
                 (found_pin_nodes (shift_search (length h0) s))\<rparr>)
          = shift_result (shift_search (length h0))
              (push_wire nl t (Some instance_node) (innerpin_wire nl q)
                (s\<lparr>found_pin_nodes := insert pin_node (found_pin_nodes s)\<rparr>))"
      using push_wire_relocate_Some[OF k n, of nl h0 "innerpin_wire nl q"
          "s\<lparr>found_pin_nodes := insert pin_node (found_pin_nodes s)\<rparr>"]
      by (simp add: shift_search_updates)
  qed
qed

lemma visit_outer_pin_relocate:
  assumes k: "kids_ok 0 t" and i: "i < length t"
  shows "visit_outer_pin nl (relocate h0 t) (i + length h0) (shift_search (length h0) s) j q
         = shift_result (shift_search (length h0)) (visit_outer_pin nl t i s j q)"
  unfolding visit_outer_pin_def
proof (rule ebind_relocate[OF child_relocate[OF i]])
  fix instance_node assume "child t i (Instance j) = Inr instance_node"
  from child_in_range[OF k i this] have n: "instance_node < length t" .
  show "(if definition_is_leaf nl (instance_reference nl j)
         then Inr (shift_search (length h0) s
                \<lparr>downstream_nodes := downstream_nodes (shift_search (length h0) s)
                     @ [instance_node + length h0]\<rparr>)
         else enter_instance nl (relocate h0 t) (instance_node + length h0) q
                (shift_search (length h0) s))
        = shift_result (shift_search (length h0))
            (if definition_is_leaf nl (instance_reference nl j)
             then Inr (s\<lparr>downstream_nodes := downstream_nodes s @ [instance_node]\<rparr>)
             else enter_instance nl t instance_node q s)"
    by (simp add: enter_instance_relocate[OF k n] shift_search_updates)
qed

lemma visit_pin_relocate:
  assumes k: "kids_ok 0 t" and p: "parents_ok 0 t" and i: "\<forall>i. cin = Some i \<longrightarrow> i < length t"
  shows "visit_pin nl (relocate h0 t) b (map_option (\<lambda>a. a + length h0) cin)
           (shift_search (length h0) s) pin
         = shift_result (shift_search (length h0)) (visit_pin nl t b cin s pin)"
proof (cases cin)
  case None
  then show ?thesis by (simp add: visit_pin_def)
next
  case (Some j)
  with i have j: "j < length t" by simp
  show ?thesis
    by (cases pin)
      (simp_all add: Some visit_pin_def visit_inner_pin_relocate[OF k p j]
        visit_outer_pin_relocate[OF k j])
qed

lemma visit_wire_relocate:
  assumes k: "kids_ok 0 t" and p: "parents_ok 0 t" and w: "wn < length t"
  shows "visit_wire nl (relocate h0 t) b (wn + length h0) (shift_search (length h0) s)
         = shift_result (shift_search (length h0)) (visit_wire nl t b wn s)"
proof (cases "parent (t ! wn)")
  case None
  then show ?thesis by (simp add: visit_wire_def node_relocate[OF w])
next
  case (Some cn)
  from parent_in_range[OF p w Some] have c: "cn < length t" .
  have ci: "\<forall>i. parent (t ! cn) = Some i \<longrightarrow> i < length t"
    using parent_in_range[OF p c] by blast
  have fe: "for_each (visit_pin nl (relocate h0 t) b (map_option (\<lambda>a. a + length h0) (parent (t ! cn))))
              ps (shift_search (length h0) s)
            = shift_result (shift_search (length h0))
                (for_each (visit_pin nl t b (parent (t ! cn))) ps s)" for ps
    by (rule for_each_relocate) (rule visit_pin_relocate[OF k p ci])
  show ?thesis
    by (cases "item (t ! wn)")
      (simp_all add: visit_wire_def node_relocate[OF w] node_relocate[OF c] Some fe)
qed

lemma visit_wire_in_range:
  assumes k: "kids_ok 0 t" and p: "parents_ok 0 t" and w: "wn < length t"
    and st: "\<forall>x \<in> set (search_stack s). x < length t"
    and v: "visit_wire nl t b wn s = Inr s'"
  shows "\<forall>x \<in> set (search_stack s'). x < length t"
proof -
  from visit_wire_progress[OF k p _ w v] obtain pushed where
    "search_stack s' = pushed @ search_stack s" "\<forall>x \<in> set pushed. x < length t"
    unfolding progress_def by auto
  with st show ?thesis by auto
qed

lemma search_loop_relocate:
  assumes k: "kids_ok 0 t" and p: "parents_ok 0 t"
  shows "\<forall>x \<in> set (search_stack s). x < length t \<Longrightarrow>
         search_loop fuel nl (relocate h0 t) b (shift_search (length h0) s)
         = map_option (shift_result (map (\<lambda>a. a + length h0))) (search_loop fuel nl t b s)"
proof (induction fuel arbitrary: s)
  case 0
  show ?case
  proof (cases "search_stack s")
    case Nil
    then show ?thesis by (simp add: search_loop_Nil)
  next
    case (Cons wn rest)
    then have "search_stack (shift_search (length h0) s) = (wn + length h0) # map (\<lambda>a. a + length h0) rest"
      by simp
    from search_loop_0[OF this] search_loop_0[OF Cons] show ?thesis by simp
  qed
next
  case (Suc fuel)
  show ?case
  proof (cases "search_stack s")
    case Nil
    then show ?thesis by (simp add: search_loop_Nil)
  next
    case (Cons wn rest)
    with Suc.prems have w: "wn < length t" and r: "\<forall>x \<in> set rest. x < length t" by simp_all
    have c': "search_stack (shift_search (length h0) s) = (wn + length h0) # map (\<lambda>a. a + length h0) rest"
      using Cons by simp
    have v: "visit_wire nl (relocate h0 t) b (wn + length h0)
               (shift_search (length h0) s\<lparr>search_stack := map (\<lambda>a. a + length h0) rest\<rparr>)
             = shift_result (shift_search (length h0))
                 (visit_wire nl t b wn (s\<lparr>search_stack := rest\<rparr>))"
      using visit_wire_relocate[OF k p w, of nl h0 b "s\<lparr>search_stack := rest\<rparr>"]
      by (simp add: shift_search_updates)
    show ?thesis
    proof (cases "visit_wire nl t b wn (s\<lparr>search_stack := rest\<rparr>)")
      case (Inl e)
      with v show ?thesis by (simp add: search_loop_Suc[OF c'] search_loop_Suc[OF Cons])
    next
      case (Inr s')
      have "\<forall>x \<in> set (search_stack s'). x < length t"
        using visit_wire_in_range[OF k p w _ Inr] r by simp
      from Suc.IH[OF this] Inr v show ?thesis
        by (simp add: search_loop_Suc[OF c'] search_loop_Suc[OF Cons])
    qed
  qed
qed

lemma seed_step_in_range:
  assumes "kids_ok 0 t" "parents_ok 0 t" "node < length t" "seed_step nl t node b = Inr s"
  shows "\<forall>x \<in> set (search_stack s). x < length t"
  using seed_step_region[of 0 t node nl b s] assms by simp

lemma get_downstream_nodes_relocate:
  assumes k: "kids_ok 0 t" and p: "parents_ok 0 t" and n: "node < length t"
  shows "get_downstream_nodes fuel nl (relocate h0 t) (node + length h0) b
         = map_option (shift_result (map (\<lambda>a. a + length h0))) (get_downstream_nodes fuel nl t node b)"
proof (cases "seed_step nl t node b")
  case (Inl e)
  then show ?thesis
    by (simp add: get_downstream_nodes_def seed_step_relocate[OF k p n])
next
  case (Inr s)
  from search_loop_relocate[OF k p seed_step_in_range[OF k p n Inr]] Inr show ?thesis
    by (simp add: get_downstream_nodes_def seed_step_relocate[OF k p n])
qed

subsection \<open>Relocation of get_connectivity_graph\<close>

lemma kids_in_range:
  assumes k: "kids_ok 0 t" and a: "a < length t"
  shows "\<forall>c \<in> set (map snd (children (t ! a))). c < length t"
proof
  fix c assume "c \<in> set (map snd (children (t ! a)))"
  then obtain e where "(e, c) \<in> set (children (t ! a))" by auto
  with k a show "c < length t" unfolding kids_ok_def by blast
qed

lemma leaf_loop_relocate:
  assumes k: "kids_ok 0 t"
  shows "\<forall>x \<in> set st. x < length t \<Longrightarrow>
         leaf_loop fuel nl (relocate h0 t) (map (\<lambda>a. a + length h0) st) (map (\<lambda>a. a + length h0) acc)
         = map_option (map (\<lambda>a. a + length h0)) (leaf_loop fuel nl t st acc)"
proof (induction fuel arbitrary: st acc)
  case 0
  then show ?case by (cases st) simp_all
next
  case (Suc fuel)
  let ?f = "\<lambda>a. a + length h0"
  let ?H = "relocate h0 t"
  show ?case
  proof (cases st)
    case Nil
    then show ?thesis by simp
  next
    case (Cons cur rest)
    with Suc.prems have c: "cur < length t" and r: "\<forall>x \<in> set rest. x < length t" by simp_all
    have push: "\<forall>x \<in> set (rev (map snd (children (t ! cur))) @ rest). x < length t"
      using kids_in_range[OF k c] r by auto
    have it: "item (?H ! (cur + length h0)) = item (t ! cur)" by (rule node_relocate(2)[OF c])
    have ch: "rev (map snd (children (?H ! (cur + length h0)))) @ map ?f rest
              = map ?f (rev (map snd (children (t ! cur))) @ rest)"
      unfolding node_relocate(3)[OF c] by (simp add: rev_map comp_def)
    have skip: "leaf_loop (Suc fuel) nl ?H (map ?f st) (map ?f acc)
                = map_option (map ?f) (leaf_loop (Suc fuel) nl t st acc)"
      if ni: "\<not> is_Instance (item (t ! cur))"
    proof -
      have "leaf_loop (Suc fuel) nl ?H (map ?f st) (map ?f acc)
            = leaf_loop fuel nl ?H (map ?f rest) (map ?f acc)"
        using ni by (cases "item (t ! cur)") (simp_all add: Cons it)
      also have "\<dots> = map_option (map ?f) (leaf_loop fuel nl t rest acc)"
        by (rule Suc.IH[OF r])
      also have "\<dots> = map_option (map ?f) (leaf_loop (Suc fuel) nl t st acc)"
        using ni by (cases "item (t ! cur)") (simp_all add: Cons)
      finally show ?thesis .
    qed
    show ?thesis
    proof (cases "item (t ! cur)")
      case (Instance i)
      show ?thesis
      proof (cases "definition_is_leaf nl (instance_reference nl i)")
        case True
        have "leaf_loop (Suc fuel) nl ?H (map ?f st) (map ?f acc)
              = leaf_loop fuel nl ?H (map ?f rest) (map ?f (acc @ [cur]))"
          by (simp add: Cons it Instance True)
        also have "\<dots> = map_option (map ?f) (leaf_loop fuel nl t rest (acc @ [cur]))"
          by (rule Suc.IH[OF r])
        also have "\<dots> = map_option (map ?f) (leaf_loop (Suc fuel) nl t st acc)"
          by (simp add: Cons Instance True)
        finally show ?thesis .
      next
        case False
        have "leaf_loop (Suc fuel) nl ?H (map ?f st) (map ?f acc)
              = leaf_loop fuel nl ?H
                  (rev (map snd (children (?H ! (cur + length h0)))) @ map ?f rest) (map ?f acc)"
          by (simp add: Cons it Instance False)
        also have "\<dots> = leaf_loop fuel nl ?H
                  (map ?f (rev (map snd (children (t ! cur))) @ rest)) (map ?f acc)"
          by (simp only: ch)
        also have "\<dots> = map_option (map ?f)
                    (leaf_loop fuel nl t (rev (map snd (children (t ! cur))) @ rest) acc)"
          by (rule Suc.IH[OF push])
        also have "\<dots> = map_option (map ?f) (leaf_loop (Suc fuel) nl t st acc)"
          by (simp add: Cons Instance False)
        finally show ?thesis .
      qed
    next
      case (Port q)
      then show ?thesis by (intro skip) simp
    next
      case (Cable q)
      then show ?thesis by (intro skip) simp
    next
      case (Wire q)
      then show ?thesis by (intro skip) simp
    next
      case (Pin q)
      then show ?thesis by (intro skip) simp
    qed
  qed
qed

lemma leaf_loop_in_range:
  assumes k: "kids_ok 0 t"
  shows "leaf_loop fuel nl t st acc = Some res \<Longrightarrow> \<forall>x \<in> set st. x < length t \<Longrightarrow>
         \<forall>x \<in> set acc. x < length t \<Longrightarrow> \<forall>x \<in> set res. x < length t"
proof (induction fuel arbitrary: st acc)
  case 0
  then show ?case by (cases st) simp_all
next
  case (Suc fuel)
  show ?case
  proof (cases st)
    case Nil
    with Suc.prems show ?thesis by simp
  next
    case (Cons cur rest)
    with Suc.prems(2) have c: "cur < length t" and r: "\<forall>x \<in> set rest. x < length t" by simp_all
    have push: "\<forall>x \<in> set (rev (map snd (children (t ! cur))) @ rest). x < length t"
      using kids_in_range[OF k c] r by auto
    have acc': "\<forall>x \<in> set (acc @ [cur]). x < length t" using Suc.prems(3) c by simp
    from Suc.prems(1) Cons
    have "leaf_loop fuel nl t rest (acc @ [cur]) = Some res
          \<or> leaf_loop fuel nl t (rev (map snd (children (t ! cur))) @ rest) acc = Some res
          \<or> leaf_loop fuel nl t rest acc = Some res"
      by (cases "item (t ! cur)") (simp_all split: if_splits)
    then show ?thesis
      using Suc.IH[OF _ r acc'] Suc.IH[OF _ push Suc.prems(3)] Suc.IH[OF _ r Suc.prems(3)]
      by blast
  qed
qed

lemma get_top_port_nodes_relocate:
  "0 < length t \<Longrightarrow>
   get_top_port_nodes (relocate h0 t) (length h0) = map (\<lambda>a. a + length h0) (get_top_port_nodes t 0)"
  using node_relocate(3)[of 0 t h0]
  by (simp add: get_top_port_nodes_def filter_map comp_def)

lemma get_top_port_nodes_in_range:
  "kids_ok 0 t \<Longrightarrow> 0 < length t \<Longrightarrow> \<forall>x \<in> set (get_top_port_nodes t 0). x < length t"
  using kids_in_range[of t 0] by (auto simp: get_top_port_nodes_def)

lemma shift_graph_simps [simp]:
  "nodes (shift_graph d g) = map (\<lambda>a. a + d) (nodes g)"
  "edges (shift_graph d g) = map (\<lambda>e. (fst e + d, snd e + d)) (edges g)"
  by (simp_all add: shift_graph_def)

lemma shift_graph_empty: "shift_graph d empty_graph = empty_graph"
  by (simp add: shift_graph_def empty_graph_def)

lemma add_node_relocate: "add_node (shift_graph d g) (n + d) = shift_graph d (add_node g n)"
  by (auto simp: add_node_def shift_graph_def)

lemma add_nodes_from_relocate:
  "add_nodes_from (shift_graph d g) (map (\<lambda>a. a + d) ns) = shift_graph d (add_nodes_from g ns)"
  unfolding add_nodes_from_def
  by (induction ns arbitrary: g) (simp_all add: add_node_relocate)

lemma add_edge_relocate: "add_edge (u + d) (shift_graph d g) (v + d) = shift_graph d (add_edge u g v)"
proof -
  have "(u + d, v + d) \<in> (\<lambda>e. (fst e + d, snd e + d)) ` E \<longleftrightarrow> (u, v) \<in> E" for E
    by (auto simp: image_iff intro: bexI[of _ "(u, v)"])
  then show ?thesis
    by (simp add: add_edge_def Let_def add_node_relocate)
qed

lemma add_edges_relocate:
  "foldl (add_edge (u + d)) (shift_graph d g) (map (\<lambda>a. a + d) ds)
     = shift_graph d (foldl (add_edge u) g ds)"
  by (induction ds arbitrary: g) (simp_all add: add_edge_relocate)

lemma edges_loop_relocate:
  assumes k: "kids_ok 0 t" and p: "parents_ok 0 t"
  shows "\<forall>x \<in> set ns. x < length t \<Longrightarrow>
         edges_loop fuel nl (relocate h0 t) b (map (\<lambda>a. a + length h0) ns) (shift_graph (length h0) g)
         = map_option (shift_result (shift_graph (length h0))) (edges_loop fuel nl t b ns g)"
proof (induction ns arbitrary: g)
  case Nil
  then show ?case by simp
next
  case (Cons n ns)
  then have n: "n < length t" and r: "\<forall>x \<in> set ns. x < length t" by simp_all
  note d = get_downstream_nodes_relocate[OF k p n, of fuel nl h0 b]
  show ?case
  proof (cases "get_downstream_nodes fuel nl t n b")
    case None
    with d show ?thesis by simp
  next
    case (Some res)
    show ?thesis
    proof (cases res)
      case (Inl e)
      with Some d show ?thesis by simp
    next
      case (Inr ds)
      with Some d Cons.IH[OF r, of "foldl (add_edge n) g ds"] show ?thesis
        by (simp add: add_edges_relocate)
    qed
  qed
qed

text \<open>
  What a call returns in the store \<open>h0\<close> is what it returns in the empty store, moved by the
  length of \<open>h0\<close>.
\<close>

lemma get_connectivity_graph_relocate:
  "get_connectivity_graph fuel nl h0 b
     = map_option (\<lambda>r. (relocate h0 (fst r), shift_result (shift_graph (length h0)) (snd r)))
         (get_connectivity_graph fuel nl [] b)"
proof (cases "generate_nodes fuel nl []")
  case None
  then show ?thesis
    by (simp add: get_connectivity_graph_def generate_nodes_relocate[of fuel nl h0])
next
  case (Some tr)
  obtain t root where tr: "tr = (t, root)" by (cases tr)
  from generate_nodes_hierarchy[OF Some[unfolded tr]]
  have root: "root = 0" and hi: "hierarchy nl 0 t" by simp_all
  from hi have k: "kids_ok 0 t" and p: "parents_ok 0 t" by (simp_all add: hierarchy_def)
  from p have r: "0 < length t" by (simp add: parents_ok_def)
  let ?d = "length h0"
  have g0: "generate_nodes fuel nl [] = Some (t, 0)" using Some tr root by simp
  have g: "generate_nodes fuel nl h0 = Some (relocate h0 t, ?d)"
    by (simp add: generate_nodes_relocate[of fuel nl h0] g0)
  have l: "get_leaf_instance_nodes fuel nl (relocate h0 t) ?d
           = map_option (map (\<lambda>a. a + ?d)) (get_leaf_instance_nodes fuel nl t 0)"
    using leaf_loop_relocate[OF k, of "[0]" fuel nl h0 "[]"] r
    by (simp add: get_leaf_instance_nodes_def)
  show ?thesis
  proof (cases "get_leaf_instance_nodes fuel nl t 0")
    case None
    with l show ?thesis by (simp add: get_connectivity_graph_def g g0)
  next
    case (Some leafs)
    have lr: "\<forall>x \<in> set leafs. x < length t"
      using leaf_loop_in_range[OF k, of fuel nl "[0]" "[]" leafs] Some r
      by (simp add: get_leaf_instance_nodes_def)
    let ?g2 = "node_graph leafs (get_top_port_nodes t 0) b"
    have ng: "node_graph (map (\<lambda>a. a + ?d) leafs) (get_top_port_nodes (relocate h0 t) ?d) b
              = shift_graph ?d ?g2"
      using add_nodes_from_relocate[of ?d empty_graph leafs]
        add_nodes_from_relocate[of ?d "add_nodes_from empty_graph leafs" "get_top_port_nodes t 0"]
      by (simp add: node_graph_def Let_def get_top_port_nodes_relocate[OF r] shift_graph_empty)
    have nr: "\<forall>x \<in> set (nodes ?g2). x < length t"
      using lr get_top_port_nodes_in_range[OF k r] by (auto simp: node_graph_facts(1) split: if_splits)
    have a: "get_connectivity_graph fuel nl h0 b
             = map_option (\<lambda>r. (relocate h0 t, r))
                 (edges_loop fuel nl (relocate h0 t) b (nodes (shift_graph ?d ?g2)) (shift_graph ?d ?g2))"
      using ng by (simp add: get_connectivity_graph_def g l Some node_graph_def Let_def)
    have c: "get_connectivity_graph fuel nl [] b
             = map_option (\<lambda>r. (t, r)) (edges_loop fuel nl t b (nodes ?g2) ?g2)"
      by (simp add: get_connectivity_graph_def g0 Some node_graph_def Let_def)
    show ?thesis
      unfolding a c
      using edges_loop_relocate[OF k p nr, of fuel nl h0 b ?g2]
      by (simp add: option.map_comp comp_def)
  qed
qed

subsection \<open>Two calls in a row\<close>

lemma shift_node_add: "shift_node d (shift_node c n) = shift_node (c + d) n"
  by (simp add: shift_node_def comp_def option.map_comp add.assoc)

lemma shift_graph_add: "shift_graph d (shift_graph c g) = shift_graph (c + d) g"
  by (simp add: shift_graph_def comp_def add.assoc)

lemma shift_result_graph_add:
  "shift_result (shift_graph d) (shift_result (shift_graph c) r) = shift_result (shift_graph (c + d)) r"
  by (cases r) (simp_all add: shift_graph_add)

lemma get_connectivity_graph_grows:
  assumes "get_connectivity_graph fuel nl [] b = Some (t, r)"
  shows "0 < length t"
proof -
  from assms obtain root where g: "generate_nodes fuel nl [] = Some (t, root)"
    by (auto simp: get_connectivity_graph_def Let_def split: option.splits prod.splits)
  from generate_nodes_hierarchy(1,2)[OF g] show ?thesis
    by (simp add: hierarchy_def parents_ok_def)
qed

lemma shifted_nodes_differ:
  assumes "ns \<noteq> []" "0 < (d::nat)"
  shows "set (map (\<lambda>a. a + d) ns) \<noteq> set ns"
proof
  assume e: "set (map (\<lambda>a. a + d) ns) = set ns"
  from assms(1) have ne: "set ns \<noteq> {}" by simp
  have "Max (set ns) \<in> set ns" using ne by (intro Max_in) simp_all
  then have "Max (set ns) + d \<in> set ns" using e by auto
  then have "Max (set ns) + d \<le> Max (set ns)" by (intro Max_ge) simp_all
  with assms(2) show False by simp
qed

lemma graph_chain_True:
  "get_connectivity_graph 30 chain [] True
     = Some (chain_heap, Inr \<lparr>nodes = [7, 6, 1, 2], edges = [(7, 7), (7, 2), (6, 6), (6, 7), (1, 6)]\<rparr>)"
  by code_simp

lemma length_chain_heap: "length chain_heap = 21"
  by (simp add: chain_heap_def)

text \<open>
  Claim C8, as stated: two calls on the same netlist should return graphs with identical node
  sets and identical edge sets. A node of the graph is a \<^verbatim>\<open>Node\<close> object, the class defines
  neither \<^verbatim>\<open>__eq__\<close> nor \<^verbatim>\<open>__hash__\<close>, and every call creates its own objects (lines 82, 91, 95,
  99, 106 and 111). In the scenario the first call returns the nodes 7, 6, 1, 2 and the second
  call, made in the store the first one left, the nodes 28, 27, 22, 23: no node and no edge of
  one graph is a node or an edge of the other.
\<close>

theorem chain_graph_twice_differs:
  "get_connectivity_graph 30 chain [] True
     = Some (chain_heap, Inr \<lparr>nodes = [7, 6, 1, 2], edges = [(7, 7), (7, 2), (6, 6), (6, 7), (1, 6)]\<rparr>)
   \<and> map_option snd (get_connectivity_graph 30 chain chain_heap True)
     = Some (Inr \<lparr>nodes = [28, 27, 22, 23],
                  edges = [(28, 28), (28, 23), (27, 27), (27, 28), (22, 27)]\<rparr>)
   \<and> set [7, 6, 1, 2] \<inter> set [28, 27, 22, 23 :: nat] = {}
   \<and> set [(7, 7), (7, 2), (6, 6), (6, 7), (1, 6)]
       \<inter> set [(28, 28), (28, 23), (27, 27), (27, 28), (22, 27 :: nat) :: nat \<times> nat] = {}"
proof -
  have "map_option snd (get_connectivity_graph 30 chain chain_heap True)
     = Some (Inr \<lparr>nodes = [28, 27, 22, 23],
                  edges = [(28, 28), (28, 23), (27, 27), (27, 28), (22, 27)]\<rparr>)"
    unfolding get_connectivity_graph_relocate[of 30 chain chain_heap True] graph_chain_True
    by (simp add: shift_graph_def length_chain_heap)
  then show ?thesis using graph_chain_True by simp
qed

text \<open>
  Claim C8, amended. The second call returns the graph of the first with every node replaced
  by the node created at the same step of the second call: with \<open>d\<close> the number of nodes the
  first call created, node \<open>a + d\<close> of the second call wraps the element that node \<open>a\<close> of the
  first call wraps, its parent and its children are those of \<open>a\<close> moved by \<open>d\<close>, and the nodes
  and edges of the second graph are those of the first moved by \<open>d\<close>, in the same order. An
  exception raised by the first call is raised by the second. The first call always creates a
  node, so a graph that has a node is never returned twice.
\<close>

theorem get_connectivity_graph_twice:
  assumes "get_connectivity_graph fuel nl h0 b = Some (h1, r1)"
  shows "length h0 < length h1
         \<and> get_connectivity_graph fuel nl h1 b
             = Some (h1 @ map (shift_node (length h1 - length h0)) (drop (length h0) h1),
                     shift_result (shift_graph (length h1 - length h0)) r1)
         \<and> (\<forall>g1. r1 = Inr g1 \<and> nodes g1 \<noteq> [] \<longrightarrow>
               set (nodes (shift_graph (length h1 - length h0) g1)) \<noteq> set (nodes g1))"
proof -
  from assms obtain t r where
    e: "get_connectivity_graph fuel nl [] b = Some (t, r)"
    and h1: "h1 = relocate h0 t" and r1: "r1 = shift_result (shift_graph (length h0)) r"
    unfolding get_connectivity_graph_relocate[of fuel nl h0 b] by auto
  have len: "length h0 < length h1" and d: "length h1 - length h0 = length t"
    using get_connectivity_graph_grows[OF e] by (simp_all add: h1 relocate_length)
  have l1: "length h1 = length h0 + length t" by (simp add: h1 relocate_length)
  have dr: "drop (length h0) h1 = map (shift_node (length h0)) t"
    by (simp add: h1 relocate_def)
  have "get_connectivity_graph fuel nl h1 b
        = Some (relocate h1 t, shift_result (shift_graph (length h1)) r)"
    unfolding get_connectivity_graph_relocate[of fuel nl h1 b] e by simp
  also have "relocate h1 t = h1 @ map (shift_node (length h1 - length h0)) (drop (length h0) h1)"
    unfolding dr d by (simp add: relocate_def shift_node_add comp_def l1)
  also have "shift_result (shift_graph (length h1)) r
             = shift_result (shift_graph (length h1 - length h0)) r1"
    unfolding r1 shift_result_graph_add d by (simp add: l1)
  finally have run: "get_connectivity_graph fuel nl h1 b
             = Some (h1 @ map (shift_node (length h1 - length h0)) (drop (length h0) h1),
                     shift_result (shift_graph (length h1 - length h0)) r1)" .
  have "set (nodes (shift_graph (length h1 - length h0) g1)) \<noteq> set (nodes g1)"
    if "nodes g1 \<noteq> []" for g1
    using shifted_nodes_differ[OF that, of "length h1 - length h0"] len
    by (simp add: shift_graph_def)
  with len run show ?thesis by blast
qed

theorem get_connectivity_graph_twice_witness:
  "get_connectivity_graph 30 chain [] True
     = Some (chain_heap, Inr \<lparr>nodes = [7, 6, 1, 2], edges = [(7, 7), (7, 2), (6, 6), (6, 7), (1, 6)]\<rparr>)
   \<and> length ([] :: heap) < length chain_heap
   \<and> get_connectivity_graph 30 chain chain_heap True
       = Some (chain_heap @ map (shift_node 21) chain_heap,
               Inr \<lparr>nodes = [28, 27, 22, 23],
                    edges = [(28, 28), (28, 23), (27, 27), (27, 28), (22, 27)]\<rparr>)
   \<and> set [28, 27, 22, 23] \<noteq> set [7, 6, 1, 2 :: nat]"
proof -
  note t = get_connectivity_graph_twice[OF graph_chain_True]
  have a: "length ([] :: heap) < length chain_heap" by (rule t[THEN conjunct1])
  have b: "get_connectivity_graph 30 chain chain_heap True
       = Some (chain_heap @ map (shift_node 21) chain_heap,
               Inr \<lparr>nodes = [28, 27, 22, 23],
                    edges = [(28, 28), (28, 23), (27, 27), (27, 28), (22, 27)]\<rparr>)"
    using t[THEN conjunct2, THEN conjunct1] by (simp add: length_chain_heap shift_graph_def)
  have c: "set [28, 27, 22, 23] \<noteq> set [7, 6, 1, 2 :: nat]"
    using t[THEN conjunct2, THEN conjunct2, THEN spec,
        of "\<lparr>nodes = [7, 6, 1, 2], edges = [(7, 7), (7, 2), (6, 6), (6, 7), (1, 6)]\<rparr>"]
    by (simp add: length_chain_heap shift_graph_def)
  show ?thesis by (intro conjI graph_chain_True a b c)
qed

subsection \<open>The seed step succeeds\<close>

lemma child_exists:
  assumes "expanded nl root h {}" "root \<le> a" "a < length h"
    "e \<in> set (child_elements nl (item (h ! a)))"
  shows "\<exists>c. child h a e = Inr c"
proof -
  from assms have "e \<in> fst ` set (children (h ! a))" by (simp add: expanded_def)
  then have "map_of (children (h ! a)) e \<noteq> None" by (simp add: map_of_eq_None_iff)
  then show ?thesis by (auto simp: child_def)
qed

lemma wire_node_of_exists:
  assumes hi: "hierarchy nl root h" and n: "root \<le> node" "node < length h"
    and w: "wire_in_instance nl h (parent (h ! node)) w"
  shows "\<exists>wn. wire_node_of nl h (parent (h ! node)) w = Inr wn"
proof -
  from hi have k: "kids_ok root h" and p: "parents_ok root h" and e: "expanded nl root h {}"
    by (simp_all add: hierarchy_def)
  from w obtain pn j where pn: "parent (h ! node) = Some pn" and j: "item (h ! pn) = Instance j"
    and c: "wire_cable nl w \<in> set (definition_cables nl (instance_reference nl j))"
    and ww: "w \<in> set (cable_wires nl (wire_cable nl w))"
    by (auto simp: wire_in_instance_def split: option.splits element.splits)
  from parent_region[OF p n pn] n(2) have r: "root \<le> pn" "pn < length h" by simp_all
  from c j have "Cable (wire_cable nl w) \<in> set (child_elements nl (item (h ! pn)))" by simp
  from child_exists[OF e r this] obtain cn where cn: "child h pn (Cable (wire_cable nl w)) = Inr cn"
    by blast
  from child_region[OF k r cn] have cr: "root \<le> cn" "cn < length h"
    and ci: "item (h ! cn) = Cable (wire_cable nl w)" by simp_all
  from ww ci have "Wire w \<in> set (child_elements nl (item (h ! cn)))" by simp
  from child_exists[OF e cr this] obtain wn where "child h cn (Wire w) = Inr wn" by blast
  with cn pn show ?thesis by (simp add: wire_node_of_def child_opt_def ebind_def)
qed

lemma push_wire_exists:
  assumes hi: "hierarchy nl root h" and n: "root \<le> node" "node < length h"
    and w: "wire_in_instance nl h (parent (h ! node)) w"
  shows "\<exists>s'. push_wire nl h (parent (h ! node)) (Some w) s = Inr s'"
  using wire_node_of_exists[OF hi n w] by (auto simp: push_wire_def ebind_def)

lemma pin_node_exists:
  assumes hi: "hierarchy nl root h" and n: "root \<le> node" "node < length h"
    and p: "item (h ! node) = Port p" and q: "q \<in> set (port_pins nl p)"
  shows "\<exists>pin_node. child h node (Pin (InnerPin q)) = Inr pin_node"
proof -
  from hi have e: "expanded nl root h {}" by (simp add: hierarchy_def)
  from p q have "Pin (InnerPin q) \<in> set (child_elements nl (item (h ! node)))" by simp
  from child_exists[OF e n this] show ?thesis .
qed

lemma seed_instance_pin_exists:
  assumes hi: "hierarchy nl root h" and n: "root \<le> node" "node < length h"
    and i: "item (h ! node) = Instance i"
    and q: "case outerpin_wire nl i q of
              None \<Rightarrow> True
            | Some w \<Rightarrow>
                port_direction nl (innerpin_port nl q) \<in> {OUT, INOUT} \<longrightarrow>
                  innerpin_port nl q \<in> set (definition_ports nl (instance_reference nl i))
                  \<and> q \<in> set (port_pins nl (innerpin_port nl q))
                  \<and> wire_in_instance nl h (parent (h ! node)) w"
  shows "\<exists>s'. seed_instance_pin nl h node i s q = Inr s'"
proof (cases "outerpin_wire nl i q")
  case None
  then show ?thesis by (simp add: seed_instance_pin_def)
next
  case (Some w)
  show ?thesis
  proof (cases "port_direction nl (innerpin_port nl q) \<in> {OUT, INOUT}")
    case False
    with Some show ?thesis by (simp add: seed_instance_pin_def)
  next
    case True
    from hi have k: "kids_ok root h" and e: "expanded nl root h {}" by (simp_all add: hierarchy_def)
    from q Some True have po: "innerpin_port nl q \<in> set (definition_ports nl (instance_reference nl i))"
      and qq: "q \<in> set (port_pins nl (innerpin_port nl q))"
      and w: "wire_in_instance nl h (parent (h ! node)) w"
      by auto
    from po i have "Port (innerpin_port nl q) \<in> set (child_elements nl (item (h ! node)))" by simp
    from child_exists[OF e n this] obtain port_node where
      pn: "child h node (Port (innerpin_port nl q)) = Inr port_node" by blast
    from child_region[OF k n pn] have pr: "root \<le> port_node" "port_node < length h"
      and pi: "item (h ! port_node) = Port (innerpin_port nl q)" by simp_all
    from pin_node_exists[OF hi pr pi qq] obtain pin_node where
      pin: "child h port_node (Pin (InnerPin q)) = Inr pin_node" by blast
    from push_wire_exists[OF hi n w] obtain s' where
      "push_wire nl h (parent (h ! node)) (Some w)
         (s\<lparr>found_pin_nodes := insert pin_node (found_pin_nodes s)\<rparr>) = Inr s'" by blast
    with Some True pn pin show ?thesis by (simp add: seed_instance_pin_def ebind_def)
  qed
qed

lemma seed_port_pin_exists:
  assumes hi: "hierarchy nl root h" and n: "root \<le> node" "node < length h"
    and p: "item (h ! node) = Port p" and qq: "q \<in> set (port_pins nl p)"
    and q: "case innerpin_wire nl q of
              None \<Rightarrow> True
            | Some w \<Rightarrow> wire_in_instance nl h (parent (h ! node)) w"
  shows "\<exists>s'. seed_port_pin nl h node s q = Inr s'"
proof (cases "innerpin_wire nl q")
  case None
  then show ?thesis by (simp add: seed_port_pin_def)
next
  case (Some w)
  with q have w: "wire_in_instance nl h (parent (h ! node)) w" by simp
  from pin_node_exists[OF hi n p qq] obtain pin_node where
    pin: "child h node (Pin (InnerPin q)) = Inr pin_node" by blast
  from push_wire_exists[OF hi n w] obtain s' where
    "push_wire nl h (parent (h ! node)) (Some w)
       (s\<lparr>found_pin_nodes := insert pin_node (found_pin_nodes s)\<rparr>) = Inr s'" by blast
  with Some pin show ?thesis by (simp add: seed_port_pin_def ebind_def)
qed

lemma for_each_exists:
  "(\<And>x s. x \<in> set xs \<Longrightarrow> \<exists>s'. body s x = Inr s') \<Longrightarrow> \<exists>s'. for_each body xs s = Inr s'"
proof (induction xs arbitrary: s)
  case Nil
  then show ?case by simp
next
  case (Cons x xs)
  from Cons.prems[of x s] obtain s1 where s1: "body s x = Inr s1" by auto
  from Cons.IH[of s1] Cons.prems obtain s' where "for_each body xs s1 = Inr s'" by auto
  with s1 show ?case by simp
qed

lemma seed_step_instance_exists:
  assumes hi: "hierarchy nl root h" and n: "root \<le> node" "node < length h"
    and i: "item (h ! node) = Instance i" and w: "instance_pins_wired nl h node i"
  shows "\<exists>s. seed_step nl h node b = Inr s"
proof -
  have "\<exists>s'. seed_instance_pin nl h node i s q = Inr s'" if "q \<in> set (instance_pins nl i)" for q s
    using seed_instance_pin_exists[OF hi n i, of q s] w that
    unfolding instance_pins_wired_def by blast
  from for_each_exists[of "instance_pins nl i" "seed_instance_pin nl h node i", OF this]
  show ?thesis by (simp add: seed_step_def i)
qed

lemma seed_step_port_exists:
  assumes hi: "hierarchy nl root h" and n: "root \<le> node" "node < length h"
    and p: "item (h ! node) = Port p" and w: "port_pins_wired nl h node p"
  shows "\<exists>s. seed_step nl h node b = Inr s"
proof (cases "b \<and> port_direction nl p \<in> {IN, INOUT}")
  case False
  then show ?thesis by (auto simp: seed_step_def p)
next
  case True
  have "\<exists>s'. seed_port_pin nl h node s q = Inr s'" if "q \<in> set (port_pins nl p)" for q s
    using seed_port_pin_exists[OF hi n p that, of s] w that True
    unfolding port_pins_wired_def by blast
  from for_each_exists[of "port_pins nl p" "seed_port_pin nl h node", OF this]
  show ?thesis using True by (simp add: seed_step_def p)
qed

lemma wire_node_of_item:
  assumes hi: "hierarchy nl root h" and n: "root \<le> node" "node < length h"
    and w: "wire_node_of nl h (parent (h ! node)) w = Inr wn"
  shows "item (h ! wn) = Wire w"
proof -
  from hi have k: "kids_ok root h" and p: "parents_ok root h" by (simp_all add: hierarchy_def)
  from w obtain pn where pn: "parent (h ! node) = Some pn"
    by (cases "parent (h ! node)") (simp_all add: wire_node_of_def child_opt_def ebind_def)
  from parent_region[OF p n pn] n(2) have r: "root \<le> pn" "pn < length h" by simp_all
  from wire_node_of_region[OF k r w[unfolded pn]] show ?thesis by simp
qed

lemma seeds_items:
  assumes hi: "hierarchy nl root h" and n: "root \<le> node" "node < length h"
  shows "map Inr wns = map (wire_node_of nl h (parent (h ! node))) ws \<Longrightarrow>
         map (\<lambda>a. item (h ! a)) wns = map Wire ws"
proof (induction wns arbitrary: ws)
  case Nil
  then show ?case by simp
next
  case (Cons wn wns)
  then obtain w ws' where ws: "ws = w # ws'" by (cases ws) auto
  with Cons.prems have w: "wire_node_of nl h (parent (h ! node)) w = Inr wn"
    and r: "map Inr wns = map (wire_node_of nl h (parent (h ! node))) ws'" by simp_all
  from wire_node_of_item[OF hi n w] Cons.IH[OF r] ws show ?case by simp
qed

lemma gen_nested: "generate_nodes 30 nested [] = Some (nested_heap, 0)"
  by code_simp

text \<open>
  Claim C4, as stated, puts a port that is not a top-level port under ``every other case'':
  no seeds and an empty list. The test of line 163 is \<^verbatim>\<open>isinstance(node.item, sdn.Port)\<close> and
  nothing more. In \<open>nested\<close> node 2 wraps port 0 of instance 1; it is no child of the top
  node, yet with top ports included the seed step pushes the wire node 7 and the call
  returns the leaf instance node 4.
\<close>

theorem nested_port_is_seeded:
  "generate_nodes 30 nested [] = Some (nested_heap, 0)
   \<and> item (nested_heap ! 2) = Port 0
   \<and> parent (nested_heap ! 2) = Some 1
   \<and> get_top_port_nodes nested_heap 0 = []
   \<and> seed_step nested nested_heap 2 True
       = Inr \<lparr>found_pin_nodes = {8}, search_stack = [7], downstream_nodes = []\<rparr>
   \<and> get_downstream_nodes 30 nested nested_heap 2 True = Some (Inr [4])"
  by code_simp

text \<open>
  Claim C4, amended. For a node of the tree built by \<open>generate_nodes\<close>. If the node wraps an
  instance, the seed step returns when the pins of the instance are wired consistently, and
  when it returns the nodes it has pushed are, in the order of the pins, the wire nodes
  \<^verbatim>\<open>parent.children[wire.cable].children[wire]\<close> of exactly the wires of the instance's pins
  whose inner pin's port has direction \<open>OUT\<close> or \<open>INOUT\<close> and whose wire is not \<^verbatim>\<open>None\<close>; each
  of these nodes wraps its wire, and no result has been recorded. If the node wraps a port,
  top-level or not, and top ports are included, the same holds with the wires of the port's
  pins that have one when the direction of the port is \<open>IN\<close> or \<open>INOUT\<close>, and with no wire
  otherwise. In every other case, a node that wraps neither, or a port with top ports not
  included, nothing is pushed and \<open>get_downstream_nodes\<close> returns the empty list.
\<close>

theorem seed_step_seeds:
  assumes "generate_nodes fuel0 nl h0 = Some (h, root)" and "root \<le> node" and "node < length h"
  shows "(\<forall>i. item (h ! node) = Instance i \<longrightarrow>
            (instance_pins_wired nl h node i \<longrightarrow> (\<exists>s. seed_step nl h node b = Inr s))
            \<and> (\<forall>s. seed_step nl h node b = Inr s \<longrightarrow>
                  seeds s = map (wire_node_of nl h (parent (h ! node))) (instance_seed_wires nl i)
                  \<and> map (\<lambda>a. item (h ! a)) (rev (search_stack s)) = map Wire (instance_seed_wires nl i)
                  \<and> downstream_nodes s = []))
       \<and> (\<forall>p. item (h ! node) = Port p \<and> b \<longrightarrow>
            (port_pins_wired nl h node p \<longrightarrow> (\<exists>s. seed_step nl h node b = Inr s))
            \<and> (\<forall>s. seed_step nl h node b = Inr s \<longrightarrow>
                  seeds s = map (wire_node_of nl h (parent (h ! node))) (port_seed_wires nl p)
                  \<and> map (\<lambda>a. item (h ! a)) (rev (search_stack s)) = map Wire (port_seed_wires nl p)
                  \<and> downstream_nodes s = []))
       \<and> ((\<forall>i. item (h ! node) \<noteq> Instance i) \<and> \<not> (b \<and> (\<exists>p. item (h ! node) = Port p)) \<longrightarrow>
            seed_step nl h node b = Inr empty_search
            \<and> get_downstream_nodes fuel nl h node b = Some (Inr []))"
proof -
  note hi = generate_nodes_hierarchy(2)[OF assms(1)]
  note n = assms(2,3)
  have inst: "seeds s = map (wire_node_of nl h (parent (h ! node))) (instance_seed_wires nl i)
              \<and> map (\<lambda>a. item (h ! a)) (rev (search_stack s)) = map Wire (instance_seed_wires nl i)
              \<and> downstream_nodes s = []"
    if i: "item (h ! node) = Instance i" and s: "seed_step nl h node b = Inr s" for i s
  proof -
    from i s seed_instance_loop_seeds[of nl h node i "instance_pins nl i" empty_search s]
    have a: "seeds s = map (wire_node_of nl h (parent (h ! node))) (instance_seed_wires nl i)"
      and d: "downstream_nodes s = []"
      by (simp_all add: seed_step_def instance_seed_wires_def seeds_empty)
    from seeds_items[OF hi n a[unfolded seeds_def]] a d show ?thesis by simp
  qed
  have port: "seeds s = map (wire_node_of nl h (parent (h ! node))) (port_seed_wires nl p)
              \<and> map (\<lambda>a. item (h ! a)) (rev (search_stack s)) = map Wire (port_seed_wires nl p)
              \<and> downstream_nodes s = []"
    if p: "item (h ! node) = Port p" and b: b and s: "seed_step nl h node b = Inr s" for p s
  proof -
    from p b s seed_port_loop_seeds[of nl h node "port_pins nl p" empty_search s]
    have a: "seeds s = map (wire_node_of nl h (parent (h ! node))) (port_seed_wires nl p)"
      and d: "downstream_nodes s = []"
      by (auto simp: seed_step_def port_seed_wires_def seeds_empty split: if_splits)
    from seeds_items[OF hi n a[unfolded seeds_def]] a d show ?thesis by simp
  qed
  have other: "seed_step nl h node b = Inr empty_search
               \<and> get_downstream_nodes fuel nl h node b = Some (Inr [])"
    if a: "\<forall>i. item (h ! node) \<noteq> Instance i" "\<not> (b \<and> (\<exists>p. item (h ! node) = Port p))"
  proof -
    from a have s: "seed_step nl h node b = Inr empty_search"
      by (auto simp: seed_step_def split: element.splits)
    have "search_loop fuel nl h b empty_search = Some (Inr [])"
      by (simp add: search_loop_Nil empty_search_def)
    with s show ?thesis by (simp add: get_downstream_nodes_def)
  qed
  show ?thesis
    using inst port other seed_step_instance_exists[OF hi n] seed_step_port_exists[OF hi n]
    by blast
qed

theorem seed_step_seeds_witness:
  "generate_nodes 30 chain [] = Some (chain_heap, 0)
   \<and> (0::nat) \<le> 6 \<and> 6 < length chain_heap \<and> (0::nat) \<le> 1 \<and> 1 < length chain_heap
   \<and> item (chain_heap ! 6) = Instance 1
   \<and> instance_pins_wired chain chain_heap 6 1
   \<and> (\<exists>s. seed_step chain chain_heap 6 True = Inr s)
   \<and> seed_step chain chain_heap 6 True = Inr \<lparr>found_pin_nodes = {14}, search_stack = [17], downstream_nodes = []\<rparr>
   \<and> seeds \<lparr>found_pin_nodes = {14}, search_stack = [17], downstream_nodes = []\<rparr>
       = map (wire_node_of chain chain_heap (parent (chain_heap ! 6))) (instance_seed_wires chain 1)
   \<and> map (\<lambda>a. item (chain_heap ! a)) (rev [17]) = map Wire (instance_seed_wires chain 1)
   \<and> instance_seed_wires chain 1 = [1]
   \<and> item (chain_heap ! 1) = Port 0
   \<and> port_pins_wired chain chain_heap 1 0
   \<and> (\<exists>s. seed_step chain chain_heap 1 True = Inr s)
   \<and> seed_step chain chain_heap 1 True = Inr \<lparr>found_pin_nodes = {20}, search_stack = [18], downstream_nodes = []\<rparr>
   \<and> seeds \<lparr>found_pin_nodes = {20}, search_stack = [18], downstream_nodes = []\<rparr>
       = map (wire_node_of chain chain_heap (parent (chain_heap ! 1))) (port_seed_wires chain 0)
   \<and> map (\<lambda>a. item (chain_heap ! a)) (rev [18]) = map Wire (port_seed_wires chain 0)
   \<and> port_seed_wires chain 0 = [0]
   \<and> seed_step chain chain_heap 1 False = Inr empty_search
   \<and> get_downstream_nodes 0 chain chain_heap 1 False = Some (Inr [])"
proof -
  have r6: "(0::nat) \<le> 6" "6 < length chain_heap" and r1: "(0::nat) \<le> 1" "1 < length chain_heap"
    by (simp_all add: chain_heap_def)
  have i: "item (chain_heap ! 6) = Instance 1" by (simp add: chain_heap_def)
  have p: "item (chain_heap ! 1) = Port 0" by (simp add: chain_heap_def)
  have iw: "instance_pins_wired chain chain_heap 6 1" by code_simp
  have pw: "port_pins_wired chain chain_heap 1 0" by code_simp
  have s6: "seed_step chain chain_heap 6 True = Inr \<lparr>found_pin_nodes = {14}, search_stack = [17], downstream_nodes = []\<rparr>"
    by code_simp
  have s1: "seed_step chain chain_heap 1 True = Inr \<lparr>found_pin_nodes = {20}, search_stack = [18], downstream_nodes = []\<rparr>"
    by code_simp
  have w6: "instance_seed_wires chain 1 = [1]" by code_simp
  have w1: "port_seed_wires chain 0 = [0]" by code_simp
  have n: "(\<forall>i. item (chain_heap ! 1) \<noteq> Instance i) \<and> \<not> (False \<and> (\<exists>p. item (chain_heap ! 1) = Port p))"
    by (simp add: chain_heap_def)
  have pT: "item (chain_heap ! 1) = Port 0 \<and> True" using p by simp
  note t6 = seed_step_seeds[OF gen_chain r6, of True 0, THEN conjunct1, THEN spec, THEN mp, OF i]
  note t1 = seed_step_seeds[OF gen_chain r1, of True 0, THEN conjunct2, THEN conjunct1, THEN spec, THEN mp, OF pT]
  note t0 = seed_step_seeds[OF gen_chain r1, of False 0, THEN conjunct2, THEN conjunct2, THEN mp, OF n]
  note e6 = t6[THEN conjunct1, THEN mp, OF iw]
  note e1 = t1[THEN conjunct1, THEN mp, OF pw]
  note c6 = t6[THEN conjunct2, THEN spec, THEN mp, OF s6]
  note c1 = t1[THEN conjunct2, THEN spec, THEN mp, OF s1]
  have c6a: "seeds \<lparr>found_pin_nodes = {14}, search_stack = [17], downstream_nodes = []\<rparr>
       = map (wire_node_of chain chain_heap (parent (chain_heap ! 6))) (instance_seed_wires chain 1)"
    by (rule c6[THEN conjunct1])
  have c6b: "map (\<lambda>a. item (chain_heap ! a)) (rev [17]) = map Wire (instance_seed_wires chain 1)"
    using c6[THEN conjunct2, THEN conjunct1] by simp
  have c1a: "seeds \<lparr>found_pin_nodes = {20}, search_stack = [18], downstream_nodes = []\<rparr>
       = map (wire_node_of chain chain_heap (parent (chain_heap ! 1))) (port_seed_wires chain 0)"
    by (rule c1[THEN conjunct1])
  have c1b: "map (\<lambda>a. item (chain_heap ! a)) (rev [18]) = map Wire (port_seed_wires chain 0)"
    using c1[THEN conjunct2, THEN conjunct1] by simp
  show ?thesis
    by (intro conjI gen_chain r6 r1 i iw e6 s6 c6a c6b w6 p pw e1 s1 c1a c1b w1
        t0[THEN conjunct1] t0[THEN conjunct2])
qed

subsection \<open>The search with and without top ports\<close>

lemma drop_ports_simps [simp]:
  "found_pin_nodes (drop_ports h s) = found_pin_nodes s"
  "search_stack (drop_ports h s) = search_stack s"
  "downstream_nodes (drop_ports h s) = filter (nonport h) (downstream_nodes s)"
  by (simp_all add: drop_ports_def)












lemma seed_step_nonport:
  assumes "nonport h node"
  shows "seed_step nl h node False = seed_step nl h node True"
  using assms by (cases "item (h ! node)") (simp_all add: seed_step_def nonport_def)




subsection \<open>The graph with and without top ports\<close>

lemma restrict_graph_simps [simp]:
  "nodes (restrict_graph P g) = filter P (nodes g)"
  "edges (restrict_graph P g) = filter (\<lambda>e. P (fst e) \<and> P (snd e)) (edges g)"
  by (simp_all add: restrict_graph_def)

















end
